theory Spec2Isabelle
  imports Main "HOL-Library.Word" "HOL-Library.Multiset"
begin

section \<open>Best-Fit fixed-partition simulator: data model\<close>

text \<open>
  The program is one C++ file.  Its \<^verbatim>\<open>int\<close> is a 32-bit two's complement integer:
  a \<open>32 word\<close>, read through \<open>sint\<close> and compared with the signed orders
  \<open>\<le>s\<close> and \<open><s\<close>.  The three global vectors and the standard output
  stream \<^verbatim>\<open>cout\<close> are the fields of one state record that every function takes and
  returns.

  Field names are the source's.  \<^verbatim>\<open>id\<close> and \<^verbatim>\<open>size\<close> are constants of HOL, and
  \<^verbatim>\<open>jobNumber\<close>, \<^verbatim>\<open>jobSize\<close> are fields of both structs, so the fields of
  \<^verbatim>\<open>Partition\<close> that clash carry the suffix \<open>_p\<close>.
\<close>

type_synonym int32 = "32 word"

record Partition =
  id_p :: int32
  size_p :: int32
  isFree :: bool
  jobNumber_p :: int32
  jobSize_p :: int32
  internalFragment :: int32

record Job =
  jobNumber :: int32
  jobSize :: int32

text \<open>What the program prints, one constructor for each message that carries a decision.\<close>

datatype message =
    InvalidSize
  | Allocated int32 int32
  | AddedToWaiting int32
  | WaitingAllocated int32 int32
  | Deallocated int32 int32
  | JobNotFound

record sim =
  memory :: "Partition list"
  waitingQueue :: "Job list"
  deallocatedJobs :: "Job list"
  cout :: "message list"

definition INT_MAX :: int32 where
  "INT_MAX = 2147483647"

section \<open>The Best-Fit scan\<close>

text \<open>
  The \<^verbatim>\<open>for\<close> loop of \<^verbatim>\<open>allocateJob\<close> (lines 139-147), and again of
  \<^verbatim>\<open>tryAllocateWaiting\<close> (lines 177-185): \<open>ps\<close> are the partitions from index
  \<open>i\<close> on, \<open>bestIndex\<close> and \<open>smallestFit\<close> are the loop's two variables.
  \<open>bestIndex\<close> is \<open>-1\<close> or an index of the vector.

  The subtraction is reached only under the test \<^verbatim>\<open>size >= jobSize\<close>, so it can leave the
  range of \<^verbatim>\<open>int\<close> only for a negative job size, which \<^verbatim>\<open>main\<close> never passes on; the
  word subtraction of the model wraps around there, as the machine does.
\<close>

fun scanFrom :: "Partition list \<Rightarrow> int32 \<Rightarrow> nat \<Rightarrow> int \<Rightarrow> int32 \<Rightarrow> int" where
  "scanFrom [] s i bestIndex smallestFit = bestIndex"
| "scanFrom (p # ps) s i bestIndex smallestFit =
     (if isFree p \<and> s \<le>s size_p p then
        (let leftover = size_p p - s in
         if leftover <s smallestFit then scanFrom ps s (Suc i) (int i) leftover
         else scanFrom ps s (Suc i) bestIndex smallestFit)
      else scanFrom ps s (Suc i) bestIndex smallestFit)"

definition findBest :: "Partition list \<Rightarrow> int32 \<Rightarrow> int" where
  "findBest mem s = scanFrom mem s 0 (- 1) INT_MAX"

text \<open>Lines 158-161 and 189-192: the four assignments that fill a partition.\<close>

definition occupy :: "Partition \<Rightarrow> Job \<Rightarrow> Partition" where
  "occupy p job =
     p\<lparr>isFree := False, jobNumber_p := jobNumber job, jobSize_p := jobSize job,
       internalFragment := size_p p - jobSize job\<rparr>"

definition allocateJob :: "Job \<Rightarrow> sim \<Rightarrow> sim" where
  "allocateJob job st =
     (let bestIndex = findBest (memory st) (jobSize job) in
      if bestIndex = - 1 then
        st\<lparr>waitingQueue := waitingQueue st @ [job],
           cout := cout st @ [AddedToWaiting (jobNumber job)]\<rparr>
      else
        (let k = nat bestIndex; p = occupy (memory st ! k) job in
         st\<lparr>memory := (memory st)[k := p],
            cout := cout st @ [Allocated (jobNumber job) (id_p p)]\<rparr>))"

section \<open>The retry sweep\<close>

text \<open>
  \<^verbatim>\<open>tryAllocateWaiting\<close>, lines 168-204.  \<open>retryLoop\<close> is the range-for over the
  waiting queue: \<open>mem\<close> is the global \<^verbatim>\<open>memory\<close>, \<open>remaining\<close> the local vector
  of jobs that still do not fit, \<open>out\<close> the output stream.
\<close>

fun retryLoop ::
  "Job list \<Rightarrow> Partition list \<Rightarrow> Job list \<Rightarrow> message list
     \<Rightarrow> Partition list \<times> Job list \<times> message list" where
  "retryLoop [] mem remaining out = (mem, remaining, out)"
| "retryLoop (j # js) mem remaining out =
     (let bestIndex = findBest mem (jobSize j) in
      if bestIndex \<noteq> - 1 then
        (let k = nat bestIndex; p = occupy (mem ! k) j in
         retryLoop js (mem[k := p]) remaining
           (out @ [WaitingAllocated (jobNumber j) (id_p p)]))
      else retryLoop js mem (remaining @ [j]) out)"

definition tryAllocateWaiting :: "sim \<Rightarrow> sim" where
  "tryAllocateWaiting st =
     (if waitingQueue st = [] then st
      else
        (case retryLoop (waitingQueue st) (memory st) [] (cout st) of
           (mem, remaining, out) \<Rightarrow>
             st\<lparr>memory := mem, waitingQueue := remaining, cout := out\<rparr>))"

section \<open>Deallocation\<close>

text \<open>Lines 218-221: the four assignments that reset a partition to the free state.\<close>

definition release :: "Partition \<Rightarrow> Partition" where
  "release p = p\<lparr>isFree := True, jobNumber_p := - 1, jobSize_p := 0, internalFragment := 0\<rparr>"

text \<open>
  \<^verbatim>\<open>deallocateJob\<close>, lines 207-230.  \<open>deallocLoop\<close> is the range-for over
  \<^verbatim>\<open>memory\<close>: \<open>ps\<close> are the partitions from index \<open>i\<close> on, and the reference
  \<^verbatim>\<open>p\<close> of the source is element \<open>i\<close> of the vector.  The loop returns from inside its
  body at the first match; falling out of the loop prints the error.
\<close>

fun deallocLoop :: "Partition list \<Rightarrow> nat \<Rightarrow> int32 \<Rightarrow> sim \<Rightarrow> sim" where
  "deallocLoop [] i n st = st\<lparr>cout := cout st @ [JobNotFound]\<rparr>"
| "deallocLoop (p # ps) i n st =
     (if \<not> isFree p \<and> jobNumber_p p = n then
        tryAllocateWaiting
          (st\<lparr>cout := cout st @ [Deallocated n (id_p p)],
              deallocatedJobs :=
                deallocatedJobs st @ [\<lparr>jobNumber = jobNumber_p p, jobSize = jobSize_p p\<rparr>],
              memory := (memory st)[i := release p]\<rparr>)
      else deallocLoop ps (Suc i) n st)"

definition deallocateJob :: "int32 \<Rightarrow> sim \<Rightarrow> sim" where
  "deallocateJob n st = deallocLoop (memory st) 0 n st"

section \<open>The main function\<close>

text \<open>
  The standard input is the list of the integers typed so far.  The \<^verbatim>\<open>do\<close> loops of
  lines 241-245 and 268-272 read until a positive value arrives and print
  \<^verbatim>\<open>Invalid size\<close> for every other one; when the input runs out the loop is still
  waiting, which is the result \<open>None\<close>.
\<close>

fun readPositive ::
  "int32 list \<Rightarrow> message list \<Rightarrow> (int32 \<times> int32 list) option \<times> message list" where
  "readPositive [] out = (None, out)"
| "readPositive (s # inp) out =
     (if s \<le>s 0 then readPositive inp (out @ [InvalidSize]) else (Some (s, inp), out))"

definition emptySim :: sim where
  "emptySim = \<lparr>memory = [], waitingQueue = [], deallocatedJobs = [], cout = []\<rparr>"

text \<open>
  Lines 239-248, the loop that builds the pool.  The second component of the result is
  the rest of the input once all \<open>n\<close> partitions exist, and \<open>None\<close> while the
  program still waits for a size.
\<close>

function initPartitions ::
  "int32 \<Rightarrow> int32 \<Rightarrow> int32 list \<Rightarrow> sim \<Rightarrow> sim \<times> int32 list option" where
  "initPartitions i n inp st =
     (if i <s n then
        (case readPositive inp (cout st) of
           (None, out) \<Rightarrow> (st\<lparr>cout := out\<rparr>, None)
         | (Some (s, rest), out) \<Rightarrow>
             initPartitions (i + 1) n rest
               (st\<lparr>memory := memory st @
                    [\<lparr>id_p = i + 1, size_p = s, isFree = True, jobNumber_p = - 1,
                      jobSize_p = 0, internalFragment = 0\<rparr>],
                  cout := out\<rparr>))
      else (st, Some inp))"
  by pat_completeness auto
termination
proof (relation "measure (\<lambda>(i, n, inp, st). nat (sint n - sint i))")
  show "wf (measure (\<lambda>(i, n, inp, st). nat (sint n - sint i)))"
    by simp
next
  fix i n :: int32 and inp :: "int32 list" and st :: sim
    and x :: "(int32 \<times> int32 list) option \<times> message list"
    and x1 :: "(int32 \<times> int32 list) option" and out :: "message list"
    and x2 :: "int32 \<times> int32 list" and s :: int32 and rest :: "int32 list"
  assume lt: "i <s n"
  have "sint i < sint n" using lt by (simp add: word_sless_alt)
  moreover have "sint n < 2 ^ 31" using sint_lt [of n] by simp
  moreover have "- (2 ^ 31) \<le> sint i" using sint_ge [of i] by simp
  ultimately have "sint (i + 1) = sint i + 1"
    by (simp add: sint_word_ariths signed_take_bit_int_eq_self)
  with \<open>sint i < sint n\<close>
  show "((i + 1, n, rest,
          st\<lparr>memory := memory st @
               [\<lparr>id_p = i + 1, size_p = s, isFree = True, jobNumber_p = - 1,
                 jobSize_p = 0, internalFragment = 0\<rparr>],
             cout := out\<rparr>),
         (i, n, inp, st)) \<in> measure (\<lambda>(i, n, inp, st). nat (sint n - sint i))"
    by simp
qed

text \<open>
  Lines 250-286, the menu loop, with the local \<^verbatim>\<open>jobCounter\<close> as first argument.
  \<^verbatim>\<open>jobCounter++\<close> at \<^verbatim>\<open>INT_MAX\<close> is a signed overflow, which C++ leaves undefined:
  the result \<open>None\<close>.  When the input runs out the result is the state in which the
  program waits for the next number.  \<^verbatim>\<open>showStatus\<close> only reads the three vectors, so
  choice 3 leaves the state as it is (the table it prints is not part of the model).
\<close>

function menuLoop :: "int32 \<Rightarrow> sim \<Rightarrow> int32 list \<Rightarrow> sim option" where
  "menuLoop jobCounter st [] = Some st"
| "menuLoop jobCounter st (choice # inp) =
     (if choice = 1 then
        (if jobCounter = INT_MAX then None
         else
           (case readPositive inp (cout st) of
              (None, out) \<Rightarrow> Some (st\<lparr>cout := out\<rparr>)
            | (Some (s, rest), out) \<Rightarrow>
                menuLoop (jobCounter + 1)
                  (allocateJob \<lparr>jobNumber = jobCounter, jobSize = s\<rparr> (st\<lparr>cout := out\<rparr>))
                  rest))
      else if choice = 2 then
        (case inp of
           [] \<Rightarrow> Some st
         | n # rest \<Rightarrow> menuLoop jobCounter (deallocateJob n st) rest)
      else if choice = 3 then menuLoop jobCounter st inp
      else if choice = 4 then Some st
      else menuLoop jobCounter st inp)"
  by pat_completeness auto
termination
proof -
  have len: "length rest \<le> length inp"
    if "(Some (s, rest), out') = readPositive inp out"
    for inp rest :: "int32 list" and out out' s
    using that by (induction inp arbitrary: out) (force split: if_splits)+
  show ?thesis
    by (relation "measure (\<lambda>(c, st, inp). length inp)") (auto dest: len)
qed

text \<open>
  \<^verbatim>\<open>main\<close>: the number of partitions, the pool, then the menu with
  \<^verbatim>\<open>jobCounter = 1\<close>.
\<close>

definition main :: "int32 list \<Rightarrow> sim option" where
  "main inp =
     (case inp of
        [] \<Rightarrow> Some emptySim
      | n # rest \<Rightarrow>
          (case initPartitions 0 n rest emptySim of
             (st, None) \<Rightarrow> Some st
           | (st, Some rest') \<Rightarrow> menuLoop 1 st rest'))"

section \<open>Vocabulary of the properties\<close>

text \<open>
  A partition is a candidate for a request of size \<open>s\<close> when it is free and its
  capacity is at least \<open>s\<close>.
\<close>

definition fits :: "int32 \<Rightarrow> Partition \<Rightarrow> bool" where
  "fits s p \<longleftrightarrow> isFree p \<and> s \<le>s size_p p"

text \<open>A partition holds job number \<open>n\<close> when it is occupied and its occupant has that number.\<close>

definition holds :: "int32 \<Rightarrow> Partition \<Rightarrow> bool" where
  "holds n p \<longleftrightarrow> \<not> isFree p \<and> jobNumber_p p = n"

text \<open>The partition ids grow along the vector, as line 246 assigns them.\<close>

definition idsIncreasing :: "Partition list \<Rightarrow> bool" where
  "idsIncreasing mem \<longleftrightarrow> sorted_wrt (\<lambda>p q. id_p p <s id_p q) mem"

text \<open>
  \<open>create\<close> of the specification (section 4.1): one free partition for each of the
  given sizes, in their order, with the ids 1, 2, \<dots>  \<open>freshPool i\<close> numbers them from
  \<open>i + 1\<close> on.
\<close>

fun freshPool :: "int32 \<Rightarrow> int32 list \<Rightarrow> Partition list" where
  "freshPool i [] = []"
| "freshPool i (s # ss) =
     \<lparr>id_p = i + 1, size_p = s, isFree = True, jobNumber_p = - 1, jobSize_p = 0,
      internalFragment = 0\<rparr> # freshPool (i + 1) ss"

definition create :: "int32 list \<Rightarrow> Partition list" where
  "create sizes = freshPool 0 sizes"

text \<open>
  The job numbers that are live in a state: those of the occupants of the pool, in the
  order of the pool, then those of the waiting queue.
\<close>

definition occupants :: "Partition list \<Rightarrow> int32 list" where
  "occupants mem = map jobNumber_p (filter (\<lambda>p. \<not> isFree p) mem)"

definition liveNumbers :: "sim \<Rightarrow> int32 list" where
  "liveNumbers st = occupants (memory st) @ map jobNumber (waitingQueue st)"

text \<open>
  The job numbers the program has handed out, read off its output: \<^verbatim>\<open>allocateJob\<close>
  prints the number of every job it is given, in one of its two messages.
\<close>

fun assigned :: "message list \<Rightarrow> int32 list" where
  "assigned [] = []"
| "assigned (Allocated n k # ms) = n # assigned ms"
| "assigned (AddedToWaiting n # ms) = n # assigned ms"
| "assigned (m # ms) = assigned ms"

text \<open>
  The fragment of a partition is sound when it is not negative, and 0 when the partition
  is free.
\<close>

definition fragmentOk :: "Partition \<Rightarrow> bool" where
  "fragmentOk p \<longleftrightarrow> 0 \<le>s internalFragment p \<and> (isFree p \<longrightarrow> internalFragment p = 0)"

text \<open>
  What holds of every partition the program builds: a positive capacity, fragment 0 when
  free, and when occupied a job of positive size within the capacity, the fragment being
  what is left.
\<close>

definition partOk :: "Partition \<Rightarrow> bool" where
  "partOk p \<longleftrightarrow>
     0 <s size_p p
     \<and> (if isFree p then internalFragment p = 0
        else 0 <s jobSize_p p \<and> jobSize_p p \<le>s size_p p
           \<and> internalFragment p = size_p p - jobSize_p p)"

text \<open>
  The invariant of the menu loop, \<open>c\<close> being \<^verbatim>\<open>jobCounter\<close>: the live numbers are
  distinct, positive and below the counter, the numbers handed out so far are
  \<open>1, \<dots>, c - 1\<close>, and pool and queue are well formed.
\<close>

definition invariant :: "int32 \<Rightarrow> sim \<Rightarrow> bool" where
  "invariant c st \<longleftrightarrow>
     0 <s c
     \<and> (\<forall>p\<in>set (memory st). partOk p)
     \<and> idsIncreasing (memory st)
     \<and> (\<forall>j\<in>set (waitingQueue st). 0 <s jobSize j)
     \<and> distinct (liveNumbers st)
     \<and> (\<forall>x\<in>set (liveNumbers st). 0 <s x \<and> x <s c)
     \<and> map sint (assigned (cout st)) = [1..sint c - 1]"

text \<open>
  \<open>place\<close> of the specification (section 4.1), with its precondition: the partition is
  free and its capacity is at least the size of the job.  \<open>None\<close> is the programming
  error of a call outside the precondition.  The program has no such function: it
  assigns the fields in place (\<open>occupy\<close>); the two are compared below.
\<close>

definition place :: "Partition list \<Rightarrow> nat \<Rightarrow> Job \<Rightarrow> Partition list option" where
  "place pool k job =
     (if k < length pool \<and> isFree (pool ! k) \<and> jobSize job \<le>s size_p (pool ! k)
      then Some (pool[k := occupy (pool ! k) job])
      else None)"

text \<open>
  The sweep in the words of the specification (\<open>drainRetry\<close>, section 4.2): walk the
  queue in its order; a job for which the pool has a best fit is placed there and
  reported as a placement (the job and the index of its partition), a job for which it
  has none stays waiting.  The result is the pool after the sweep, the placements and the
  jobs still waiting.  It is compared with \<open>tryAllocateWaiting\<close> below.
\<close>

fun drainRetry ::
  "Partition list \<Rightarrow> Job list \<Rightarrow> Partition list \<times> (Job \<times> nat) list \<times> Job list" where
  "drainRetry pool [] = (pool, [], [])"
| "drainRetry pool (j # js) =
     (if findBest pool (jobSize j) = - 1 then
        (case drainRetry pool js of
           (pool', placements, stillWaiting) \<Rightarrow> (pool', placements, j # stillWaiting))
      else
        (let k = nat (findBest pool (jobSize j)) in
         case drainRetry (pool[k := occupy (pool ! k) j]) js of
           (pool', placements, stillWaiting) \<Rightarrow> (pool', (j, k) # placements, stillWaiting)))"

text \<open>
  The pool at the moment the sweep visits the job at position \<open>i\<close> of the queue: the
  pool after the sweep over the \<open>i\<close> jobs before it.  The job fails at its visit when
  that pool has no best fit for it.
\<close>

definition poolAtVisit :: "Partition list \<Rightarrow> Job list \<Rightarrow> nat \<Rightarrow> Partition list" where
  "poolAtVisit pool q i = fst (drainRetry pool (take i q))"

definition failsAtVisit :: "Partition list \<Rightarrow> Job list \<Rightarrow> nat \<Rightarrow> bool" where
  "failsAtVisit pool q i \<longleftrightarrow> findBest (poolAtVisit pool q i) (jobSize (q ! i)) = - 1"

section \<open>The Best-Fit search is a best fit\<close>

lemma scanFrom_cases:
  "(scanFrom ps s i b f = b \<and> (\<forall>p\<in>set ps. fits s p \<longrightarrow> \<not> (size_p p - s <s f)))
   \<or> (\<exists>k<length ps. scanFrom ps s i b f = int (i + k)
         \<and> fits s (ps ! k) \<and> size_p (ps ! k) - s <s f
         \<and> (\<forall>j<length ps. fits s (ps ! j) \<longrightarrow> size_p (ps ! k) - s \<le>s size_p (ps ! j) - s)
         \<and> (\<forall>j<k. fits s (ps ! j) \<longrightarrow> size_p (ps ! k) - s <s size_p (ps ! j) - s))"
  (is "?none ps i b f \<or> ?some ps i b f")
proof (induction ps arbitrary: i b f)
  case Nil
  then show ?case by simp
next
  case (Cons p ps)
  let ?lo = "size_p p - s"
  show ?case
  proof (cases "fits s p \<and> ?lo <s f")
    case True
    then have step: "scanFrom (p # ps) s i b f = scanFrom ps s (Suc i) (int i) ?lo"
      by (simp add: fits_def)
    from Cons.IH [of "Suc i" "int i" ?lo] show ?thesis
    proof
      assume n: "?none ps (Suc i) (int i) ?lo"
      have "\<forall>j<length (p # ps). fits s ((p # ps) ! j) \<longrightarrow> ?lo \<le>s size_p ((p # ps) ! j) - s"
      proof (intro allI impI)
        fix j assume "j < length (p # ps)" "fits s ((p # ps) ! j)"
        then show "?lo \<le>s size_p ((p # ps) ! j) - s"
          using n by (cases j) (auto simp: word_sle_eq word_sless_alt)
      qed
      then have "?some (p # ps) i b f"
        using True n step by (intro exI [of _ 0]) simp
      then show ?thesis ..
    next
      assume "?some ps (Suc i) (int i) ?lo"
      then obtain k where k: "k < length ps" "scanFrom ps s (Suc i) (int i) ?lo = int (Suc i + k)"
        "fits s (ps ! k)" "size_p (ps ! k) - s <s ?lo"
        "\<forall>j<length ps. fits s (ps ! j) \<longrightarrow> size_p (ps ! k) - s \<le>s size_p (ps ! j) - s"
        "\<forall>j<k. fits s (ps ! j) \<longrightarrow> size_p (ps ! k) - s <s size_p (ps ! j) - s"
        by blast
      have a: "\<forall>j<length (p # ps). fits s ((p # ps) ! j)
                 \<longrightarrow> size_p (ps ! k) - s \<le>s size_p ((p # ps) ! j) - s"
      proof (intro allI impI)
        fix j assume "j < length (p # ps)" "fits s ((p # ps) ! j)"
        then show "size_p (ps ! k) - s \<le>s size_p ((p # ps) ! j) - s"
          using k by (cases j) (auto simp: word_sle_eq word_sless_alt)
      qed
      have b: "\<forall>j<Suc k. fits s ((p # ps) ! j)
                 \<longrightarrow> size_p (ps ! k) - s <s size_p ((p # ps) ! j) - s"
      proof (intro allI impI)
        fix j assume "j < Suc k" "fits s ((p # ps) ! j)"
        then show "size_p (ps ! k) - s <s size_p ((p # ps) ! j) - s"
          using k by (cases j) auto
      qed
      have "size_p (ps ! k) - s <s f"
        using k(4) True by (auto simp: word_sless_alt)
      then have "?some (p # ps) i b f"
        using k(1,2,3) a b step by (intro exI [of _ "Suc k"]) simp
      then show ?thesis ..
    qed
  next
    case False
    then have step: "scanFrom (p # ps) s i b f = scanFrom ps s (Suc i) b f"
      by (auto simp: fits_def Let_def)
    from Cons.IH [of "Suc i" b f] show ?thesis
    proof
      assume "?none ps (Suc i) b f"
      then have "?none (p # ps) i b f"
        using False step by auto
      then show ?thesis ..
    next
      assume "?some ps (Suc i) b f"
      then obtain k where k: "k < length ps" "scanFrom ps s (Suc i) b f = int (Suc i + k)"
        "fits s (ps ! k)" "size_p (ps ! k) - s <s f"
        "\<forall>j<length ps. fits s (ps ! j) \<longrightarrow> size_p (ps ! k) - s \<le>s size_p (ps ! j) - s"
        "\<forall>j<k. fits s (ps ! j) \<longrightarrow> size_p (ps ! k) - s <s size_p (ps ! j) - s"
        by blast
      have p: "fits s p \<Longrightarrow> size_p (ps ! k) - s <s ?lo"
        using False k(4) by (auto simp: word_sless_alt)
      have a: "\<forall>j<length (p # ps). fits s ((p # ps) ! j)
                 \<longrightarrow> size_p (ps ! k) - s \<le>s size_p ((p # ps) ! j) - s"
      proof (intro allI impI)
        fix j assume "j < length (p # ps)" "fits s ((p # ps) ! j)"
        then show "size_p (ps ! k) - s \<le>s size_p ((p # ps) ! j) - s"
          using k p by (cases j) (auto simp: word_sle_eq word_sless_alt)
      qed
      have b: "\<forall>j<Suc k. fits s ((p # ps) ! j)
                 \<longrightarrow> size_p (ps ! k) - s <s size_p ((p # ps) ! j) - s"
      proof (intro allI impI)
        fix j assume "j < Suc k" "fits s ((p # ps) ! j)"
        then show "size_p (ps ! k) - s <s size_p ((p # ps) ! j) - s"
          using k p by (cases j) auto
      qed
      have "?some (p # ps) i b f"
        using k(1,2,3,4) a b step by (intro exI [of _ "Suc k"]) simp
      then show ?thesis ..
    qed
  qed
qed

lemma sint_leftover:
  assumes "0 <s s" "s \<le>s (c::int32)"
  shows "sint (c - s) = sint c - sint s"
proof -
  have "0 < sint s" "sint s \<le> sint c"
    using assms by (simp_all add: word_sless_alt word_sle_eq)
  moreover have "sint c < 2 ^ 31" "- (2 ^ 31) \<le> sint s"
    using sint_lt [of c] sint_ge [of s] by simp_all
  ultimately show ?thesis
    by (simp add: sint_word_ariths signed_take_bit_int_eq_self)
qed

lemma leftover_below_INT_MAX:
  assumes "0 <s s" "s \<le>s (c::int32)"
  shows "c - s <s INT_MAX"
proof -
  have "sint c < 2 ^ 31" using sint_lt [of c] by simp
  moreover have "0 < sint s" using assms by (simp add: word_sless_alt)
  ultimately show ?thesis
    using sint_leftover [OF assms] by (simp add: word_sless_alt INT_MAX_def)
qed

lemma findBest_none:
  assumes "\<forall>p\<in>set mem. \<not> fits s p"
  shows "findBest mem s = - 1"
  using scanFrom_cases [of mem s 0 "- 1" INT_MAX] assms
  by (auto simp: findBest_def)

lemma findBest_some:
  assumes pos: "0 <s s" and ex: "\<exists>p\<in>set mem. fits s p"
  shows "\<exists>k<length mem. findBest mem s = int k \<and> fits s (mem ! k)
           \<and> (\<forall>j<length mem. fits s (mem ! j)
                 \<longrightarrow> sint (size_p (mem ! k)) - sint s \<le> sint (size_p (mem ! j)) - sint s)
           \<and> (\<forall>j<k. fits s (mem ! j)
                 \<longrightarrow> sint (size_p (mem ! k)) - sint s < sint (size_p (mem ! j)) - sint s)"
proof -
  from ex obtain p where p: "p \<in> set mem" "fits s p" by blast
  then have "size_p p - s <s INT_MAX"
    using leftover_below_INT_MAX [OF pos] by (simp add: fits_def)
  with p have "\<not> (\<forall>p\<in>set mem. fits s p \<longrightarrow> \<not> (size_p p - s <s INT_MAX))"
    by blast
  with scanFrom_cases [of mem s 0 "- 1" INT_MAX]
  obtain k where k: "k < length mem" "findBest mem s = int k" "fits s (mem ! k)"
    "\<forall>j<length mem. fits s (mem ! j) \<longrightarrow> size_p (mem ! k) - s \<le>s size_p (mem ! j) - s"
    "\<forall>j<k. fits s (mem ! j) \<longrightarrow> size_p (mem ! k) - s <s size_p (mem ! j) - s"
    by (auto simp: findBest_def)
  have lo: "sint (size_p q - s) = sint (size_p q) - sint s" if "fits s q" for q
    using that sint_leftover [OF pos] by (simp add: fits_def)
  have "\<forall>j<length mem. fits s (mem ! j)
          \<longrightarrow> sint (size_p (mem ! k)) - sint s \<le> sint (size_p (mem ! j)) - sint s"
    using k(3,4) lo by (fastforce simp: word_sle_eq)
  moreover have "\<forall>j<k. fits s (mem ! j)
          \<longrightarrow> sint (size_p (mem ! k)) - sint s < sint (size_p (mem ! j)) - sint s"
    using k(3,5) lo by (fastforce simp: word_sless_alt)
  ultimately show ?thesis using k(1,2,3) by blast
qed

lemma idsIncreasing_nth:
  assumes "idsIncreasing mem" "i < j" "j < length mem"
  shows "id_p (mem ! i) <s id_p (mem ! j)"
  using assms by (simp add: idsIncreasing_def sorted_wrt_iff_nth_less)

text \<open>
  C1.  For a request of positive size, \<^verbatim>\<open>allocateJob\<close> considers exactly the free
  partitions whose capacity is at least the request.  When there is none, the scan ends
  with no index and the job is appended to the waiting queue, the pool untouched.
  Otherwise the scan ends at a candidate of least leftover, every candidate before it in
  the vector has a strictly larger leftover, so among the candidates of least leftover it
  is the one of lowest partition id, and the job is placed there.
\<close>

theorem allocateJob_best_fit:
  assumes "0 <s jobSize job"
  shows "if \<forall>p\<in>set (memory st). \<not> fits (jobSize job) p
         then findBest (memory st) (jobSize job) = - 1
            \<and> allocateJob job st =
                st\<lparr>waitingQueue := waitingQueue st @ [job],
                   cout := cout st @ [AddedToWaiting (jobNumber job)]\<rparr>
         else (\<exists>k<length (memory st).
                findBest (memory st) (jobSize job) = int k
              \<and> fits (jobSize job) (memory st ! k)
              \<and> (\<forall>j<length (memory st). fits (jobSize job) (memory st ! j)
                    \<longrightarrow> sint (size_p (memory st ! k)) - sint (jobSize job)
                        \<le> sint (size_p (memory st ! j)) - sint (jobSize job))
              \<and> (\<forall>j<k. fits (jobSize job) (memory st ! j)
                    \<longrightarrow> sint (size_p (memory st ! k)) - sint (jobSize job)
                        < sint (size_p (memory st ! j)) - sint (jobSize job))
              \<and> (idsIncreasing (memory st)
                    \<longrightarrow> (\<forall>j<length (memory st).
                          fits (jobSize job) (memory st ! j)
                          \<and> size_p (memory st ! j) = size_p (memory st ! k)
                          \<longrightarrow> id_p (memory st ! k) \<le>s id_p (memory st ! j)))
              \<and> allocateJob job st =
                  st\<lparr>memory := (memory st)[k := occupy (memory st ! k) job],
                     cout := cout st @ [Allocated (jobNumber job) (id_p (memory st ! k))]\<rparr>)"
proof (cases "\<forall>p\<in>set (memory st). \<not> fits (jobSize job) p")
  case True
  then have "findBest (memory st) (jobSize job) = - 1"
    using findBest_none by blast
  then show ?thesis using True by (simp add: allocateJob_def)
next
  case False
  then have "\<exists>p\<in>set (memory st). fits (jobSize job) p" by blast
  from findBest_some [OF assms this]
  obtain k where k: "k < length (memory st)" "findBest (memory st) (jobSize job) = int k"
    "fits (jobSize job) (memory st ! k)"
    "\<forall>j<length (memory st). fits (jobSize job) (memory st ! j)
       \<longrightarrow> sint (size_p (memory st ! k)) - sint (jobSize job)
           \<le> sint (size_p (memory st ! j)) - sint (jobSize job)"
    "\<forall>j<k. fits (jobSize job) (memory st ! j)
       \<longrightarrow> sint (size_p (memory st ! k)) - sint (jobSize job)
           < sint (size_p (memory st ! j)) - sint (jobSize job)"
    by blast
  have ids: "id_p (memory st ! k) \<le>s id_p (memory st ! j)"
    if inc: "idsIncreasing (memory st)" and j: "j < length (memory st)"
      "fits (jobSize job) (memory st ! j)" "size_p (memory st ! j) = size_p (memory st ! k)"
    for j
  proof -
    have "\<not> j < k" using k(5) j by auto
    then consider "j = k" | "k < j" by linarith
    then show ?thesis
    proof cases
      case 1
      then show ?thesis by (simp add: word_sle_eq)
    next
      case 2
      then show ?thesis
        using idsIncreasing_nth [OF inc 2 j(1)] by (simp add: word_sle_eq word_sless_alt)
    qed
  qed
  have "allocateJob job st =
          st\<lparr>memory := (memory st)[k := occupy (memory st ! k) job],
             cout := cout st @ [Allocated (jobNumber job) (id_p (memory st ! k))]\<rparr>"
    using k(2) by (simp add: allocateJob_def Let_def occupy_def)
  with k ids False show ?thesis by (simp only: if_False) blast
qed

theorem allocateJob_best_fit_witness:
  "0 <s jobSize \<lparr>jobNumber = 1, jobSize = 4\<rparr>
   \<and> findBest
        [\<lparr>id_p = 1, size_p = 10, isFree = True, jobNumber_p = - 1, jobSize_p = 0,
           internalFragment = 0\<rparr>,
         \<lparr>id_p = 2, size_p = 4, isFree = True, jobNumber_p = - 1, jobSize_p = 0,
           internalFragment = 0\<rparr>,
         \<lparr>id_p = 3, size_p = 8, isFree = True, jobNumber_p = - 1, jobSize_p = 0,
           internalFragment = 0\<rparr>] 4 = 1"
proof -
  let ?job = "\<lparr>jobNumber = 1, jobSize = 4\<rparr> :: Job"
  let ?mem = "[\<lparr>id_p = 1, size_p = 10, isFree = True, jobNumber_p = - 1, jobSize_p = 0,
           internalFragment = 0\<rparr>,
         \<lparr>id_p = 2, size_p = 4, isFree = True, jobNumber_p = - 1, jobSize_p = 0,
           internalFragment = 0\<rparr>,
         \<lparr>id_p = 3, size_p = 8, isFree = True, jobNumber_p = - 1, jobSize_p = 0,
           internalFragment = 0\<rparr>] :: Partition list"
  let ?st = "\<lparr>memory = ?mem, waitingQueue = [], deallocatedJobs = [], cout = []\<rparr>"
  have h: "0 <s jobSize ?job" by (simp add: word_sless_alt)
  have "findBest ?mem 4 = 1"
    using allocateJob_best_fit [OF h, of ?st]
    by (auto simp: fits_def word_sle_eq less_Suc_eq numeral_3_eq_3 nth_Cons')
  with h show ?thesis by simp
qed

text \<open>
  Two more cases of section 8 of the specification, run on the model: of two free
  partitions of capacity 6 a job of size 6 gets the first, and a job of size 10 finds no
  partition in a pool of one partition of capacity 5.
\<close>

lemma tie_break_example:
  "findBest
     [\<lparr>id_p = 1, size_p = 6, isFree = True, jobNumber_p = - 1, jobSize_p = 0,
        internalFragment = 0\<rparr>,
      \<lparr>id_p = 2, size_p = 6, isFree = True, jobNumber_p = - 1, jobSize_p = 0,
        internalFragment = 0\<rparr>] 6 = 0"
  by (simp add: findBest_def INT_MAX_def word_sless_alt word_sle_eq)

lemma queueing_example:
  "main [1, 5, 1, 10] =
     Some \<lparr>memory =
             [\<lparr>id_p = 1, size_p = 5, isFree = True, jobNumber_p = - 1, jobSize_p = 0,
                internalFragment = 0\<rparr>],
           waitingQueue = [\<lparr>jobNumber = 1, jobSize = 10\<rparr>],
           deallocatedJobs = [], cout = [AddedToWaiting 1]\<rparr>"
  by code_simp

section \<open>The retry sweep is one pass over the queue\<close>

lemma findBest_range:
  "findBest mem s = - 1 \<or> (\<exists>k<length mem. findBest mem s = int k \<and> fits s (mem ! k))"
  using scanFrom_cases [of mem s 0 "- 1" INT_MAX] by (auto simp: findBest_def)

lemma occupy_sel [simp]:
  "id_p (occupy p j) = id_p p" "size_p (occupy p j) = size_p p" "\<not> isFree (occupy p j)"
  "jobNumber_p (occupy p j) = jobNumber j" "jobSize_p (occupy p j) = jobSize j"
  "internalFragment (occupy p j) = size_p p - jobSize j"
  by (simp_all add: occupy_def)

lemma id_occupy_update [simp]:
  "id_p (mem[k := occupy (mem ! k) j] ! i) = id_p (mem ! i)"
proof (cases "i = k \<and> k < length mem")
  case True
  then show ?thesis by (simp add: occupy_def)
next
  case False
  then show ?thesis by (cases "i = k") (simp_all add: list_update_beyond)
qed

lemma retryLoop_drainRetry:
  "retryLoop js mem remaining out =
     (case drainRetry mem js of
        (pool', placements, stillWaiting) \<Rightarrow>
          (pool', remaining @ stillWaiting,
           out @ map (\<lambda>(j, k). WaitingAllocated (jobNumber j) (id_p (mem ! k))) placements))"
proof (induction js arbitrary: mem remaining out)
  case Nil
  then show ?case by simp
next
  case (Cons j js)
  show ?case
  proof (cases "findBest mem (jobSize j) = - 1")
    case True
    then show ?thesis
      by (simp add: Cons.IH split: prod.splits)
  next
    case False
    then show ?thesis
      by (simp add: Cons.IH Let_def split: prod.splits)
  qed
qed

lemma poolAtVisit_0 [simp]: "poolAtVisit pool q 0 = pool"
  by (simp add: poolAtVisit_def)

lemma poolAtVisit_Suc:
  "poolAtVisit pool (j # js) (Suc i) =
     poolAtVisit
       (if findBest pool (jobSize j) = - 1 then pool
        else pool[nat (findBest pool (jobSize j)) :=
                    occupy (pool ! nat (findBest pool (jobSize j))) j]) js i"
  by (simp add: poolAtVisit_def Let_def split: prod.splits)

lemma failsAtVisit_0 [simp]:
  "failsAtVisit pool (j # js) 0 \<longleftrightarrow> findBest pool (jobSize j) = - 1"
  by (simp add: failsAtVisit_def)

lemma failsAtVisit_Suc:
  "failsAtVisit pool (j # js) (Suc i) =
     failsAtVisit
       (if findBest pool (jobSize j) = - 1 then pool
        else pool[nat (findBest pool (jobSize j)) :=
                    occupy (pool ! nat (findBest pool (jobSize j))) j]) js i"
  by (simp add: failsAtVisit_def poolAtVisit_Suc)

lemma filter_upt_Cons:
  "map ((!) (j # js)) (filter P [0..<Suc (length js)]) =
     (if P 0 then [j] else []) @ map ((!) js) (filter (P \<circ> Suc) [0..<length js])"
proof -
  have "[0..<Suc (length js)] = 0 # map Suc [0..<length js]"
    by (simp add: upt_conv_Cons map_Suc_upt del: upt_Suc)
  then show ?thesis
    by (simp add: filter_map comp_def del: upt_Suc)
qed

lemma drainRetry_waiting:
  "snd (snd (drainRetry pool q)) =
     map ((!) q) (filter (failsAtVisit pool q) [0..<length q])"
proof (induction q arbitrary: pool)
  case Nil
  then show ?case by simp
next
  case (Cons j js)
  show ?case
  proof (cases "findBest pool (jobSize j) = - 1")
    case True
    then show ?thesis
      using Cons.IH [of pool]
      by (auto simp add: filter_upt_Cons comp_def failsAtVisit_Suc split: prod.splits
          simp del: upt_Suc)
  next
    case False
    then show ?thesis
      using Cons.IH [of "pool[nat (findBest pool (jobSize j)) :=
                    occupy (pool ! nat (findBest pool (jobSize j))) j]"]
      by (auto simp add: filter_upt_Cons comp_def failsAtVisit_Suc Let_def
          split: prod.splits simp del: upt_Suc)
  qed
qed

lemma drainRetry_placed:
  "map fst (fst (snd (drainRetry pool q))) =
     map ((!) q) (filter (\<lambda>i. \<not> failsAtVisit pool q i) [0..<length q])"
proof (induction q arbitrary: pool)
  case Nil
  then show ?case by simp
next
  case (Cons j js)
  show ?case
  proof (cases "findBest pool (jobSize j) = - 1")
    case True
    then show ?thesis
      using Cons.IH [of pool]
      by (auto simp add: filter_upt_Cons comp_def failsAtVisit_Suc split: prod.splits
          simp del: upt_Suc)
  next
    case False
    then show ?thesis
      using Cons.IH [of "pool[nat (findBest pool (jobSize j)) :=
                    occupy (pool ! nat (findBest pool (jobSize j))) j]"]
      by (auto simp add: filter_upt_Cons comp_def failsAtVisit_Suc Let_def
          split: prod.splits simp del: upt_Suc)
  qed
qed

lemma drainRetry_pool:
  "case drainRetry pool q of
     (pool', placements, stillWaiting) \<Rightarrow>
       length pool' = length pool
     \<and> distinct (map snd placements)
     \<and> (\<forall>(j, k)\<in>set placements.
           k < length pool \<and> isFree (pool ! k) \<and> pool' ! k = occupy (pool ! k) j)
     \<and> (\<forall>k<length pool. k \<notin> snd ` set placements \<longrightarrow> pool' ! k = pool ! k)"
proof (induction q arbitrary: pool)
  case Nil
  then show ?case by simp
next
  case (Cons j js)
  show ?case
  proof (cases "findBest pool (jobSize j) = - 1")
    case True
    then show ?thesis
      using Cons.IH [of pool] by (simp split: prod.splits)
  next
    case False
    with findBest_range [of pool "jobSize j"]
    obtain k0 where k0: "k0 < length pool" "findBest pool (jobSize j) = int k0"
      "fits (jobSize j) (pool ! k0)"
      by blast
    let ?pool1 = "pool[k0 := occupy (pool ! k0) j]"
    obtain pool' pl sw where d: "drainRetry ?pool1 js = (pool', pl, sw)"
      by (cases "drainRetry ?pool1 js") auto
    from Cons.IH [of ?pool1] d
    have ih: "length pool' = length pool" "distinct (map snd pl)"
      "\<forall>(j', k)\<in>set pl. k < length pool \<and> isFree (?pool1 ! k)
           \<and> pool' ! k = occupy (?pool1 ! k) j'"
      "\<forall>k<length pool. k \<notin> snd ` set pl \<longrightarrow> pool' ! k = ?pool1 ! k"
      by simp_all
    have taken: "\<not> isFree (?pool1 ! k0)"
      using k0(1) by simp
    have notin: "k0 \<notin> snd ` set pl"
      using ih(3) taken by force
    have free: "\<forall>(j', k)\<in>set pl. k < length pool \<and> isFree (pool ! k)
           \<and> pool' ! k = occupy (pool ! k) j'"
    proof (clarify)
      fix j' k assume m: "(j', k) \<in> set pl"
      with ih(3) have a: "k < length pool" "isFree (?pool1 ! k)"
        "pool' ! k = occupy (?pool1 ! k) j'"
        by auto
      with taken have "k \<noteq> k0" by auto
      with a show "k < length pool \<and> isFree (pool ! k) \<and> pool' ! k = occupy (pool ! k) j'"
        by simp
    qed
    have here: "pool' ! k0 = occupy (pool ! k0) j"
      using ih(4) notin k0(1) by simp
    have rest: "\<forall>k<length pool. k \<notin> snd ` set ((j, k0) # pl) \<longrightarrow> pool' ! k = pool ! k"
      using ih(4) by auto
    have "drainRetry pool (j # js) = (pool', (j, k0) # pl, sw)"
      using False k0(2) d by simp
    then show ?thesis
      using ih(1,2) notin free here rest k0(1,3) by (simp add: fits_def)
  qed
qed

lemma fst_drainRetry_Cons:
  "fst (drainRetry pool (j # js)) =
     fst (drainRetry
            (if findBest pool (jobSize j) = - 1 then pool
             else pool[nat (findBest pool (jobSize j)) :=
                         occupy (pool ! nat (findBest pool (jobSize j))) j]) js)"
  by (simp add: Let_def split: prod.splits)

lemma drainRetry_append_pool:
  "fst (drainRetry pool (xs @ ys)) = fst (drainRetry (fst (drainRetry pool xs)) ys)"
proof (induction xs arbitrary: pool)
  case Nil
  then show ?case by simp
next
  case (Cons x xs)
  have "fst (drainRetry pool ((x # xs) @ ys)) =
          fst (drainRetry
            (if findBest pool (jobSize x) = - 1 then pool
             else pool[nat (findBest pool (jobSize x)) :=
                         occupy (pool ! nat (findBest pool (jobSize x))) x]) (xs @ ys))"
    using fst_drainRetry_Cons [of pool x "xs @ ys"] by simp
  also have "\<dots> = fst (drainRetry (fst (drainRetry pool (x # xs))) ys)"
    by (simp only: Cons.IH fst_drainRetry_Cons [of pool x xs])
  finally show ?case .
qed

lemma poolAtVisit_step:
  assumes "i < length q"
  shows "poolAtVisit pool q (Suc i) =
           (if failsAtVisit pool q i then poolAtVisit pool q i
            else (poolAtVisit pool q i)
                   [nat (findBest (poolAtVisit pool q i) (jobSize (q ! i))) :=
                      occupy (poolAtVisit pool q i !
                                nat (findBest (poolAtVisit pool q i) (jobSize (q ! i))))
                        (q ! i)])"
proof -
  have "take (Suc i) q = take i q @ [q ! i]"
    using assms by (simp add: take_Suc_conv_app_nth)
  then show ?thesis
    by (simp add: poolAtVisit_def failsAtVisit_def drainRetry_append_pool
        fst_drainRetry_Cons [of _ _ "[]"] del: drainRetry.simps(2))
qed

text \<open>
  C2.  One retry sweep is the one-pass walk of the specification: the pool, the
  placements and the new queue of \<^verbatim>\<open>tryAllocateWaiting\<close> are those of
  \<open>drainRetry\<close>.  The new queue is exactly the jobs that fail at their visit, the placed
  jobs are exactly the others, both in the order of the old queue, so every job is
  visited once.  A job that fails leaves the pool as it found it, a job that does not is
  put into the best fit of the pool it finds.  No partition receives two jobs in one
  sweep: every placement went to a partition that was free before the sweep, which holds
  that job after it, and every other partition is as it was.
\<close>

theorem tryAllocateWaiting_one_pass:
  "case drainRetry (memory st) (waitingQueue st) of
     (pool', placements, stillWaiting) \<Rightarrow>
       tryAllocateWaiting st =
         st\<lparr>memory := pool', waitingQueue := stillWaiting,
            cout := cout st @
              map (\<lambda>(j, k). WaitingAllocated (jobNumber j) (id_p (memory st ! k))) placements\<rparr>
     \<and> stillWaiting =
         map ((!) (waitingQueue st))
           (filter (failsAtVisit (memory st) (waitingQueue st)) [0..<length (waitingQueue st)])
     \<and> map fst placements =
         map ((!) (waitingQueue st))
           (filter (\<lambda>i. \<not> failsAtVisit (memory st) (waitingQueue st) i)
              [0..<length (waitingQueue st)])
     \<and> pool' = poolAtVisit (memory st) (waitingQueue st) (length (waitingQueue st))
     \<and> (\<forall>i<length (waitingQueue st).
           poolAtVisit (memory st) (waitingQueue st) (Suc i) =
             (let pool = poolAtVisit (memory st) (waitingQueue st) i; j = waitingQueue st ! i;
                  k = nat (findBest pool (jobSize j))
              in if failsAtVisit (memory st) (waitingQueue st) i then pool
                 else pool[k := occupy (pool ! k) j]))
     \<and> length pool' = length (memory st)
     \<and> distinct (map snd placements)
     \<and> (\<forall>(j, k)\<in>set placements.
           k < length (memory st) \<and> isFree (memory st ! k)
           \<and> pool' ! k = occupy (memory st ! k) j)
     \<and> (\<forall>k<length (memory st). k \<notin> snd ` set placements \<longrightarrow> pool' ! k = memory st ! k)"
proof -
  obtain pool' pl sw where d: "drainRetry (memory st) (waitingQueue st) = (pool', pl, sw)"
    by (cases "drainRetry (memory st) (waitingQueue st)") auto
  have run: "tryAllocateWaiting st =
         st\<lparr>memory := pool', waitingQueue := sw,
            cout := cout st @
              map (\<lambda>(j, k). WaitingAllocated (jobNumber j) (id_p (memory st ! k))) pl\<rparr>"
  proof (cases "waitingQueue st = []")
    case True
    then show ?thesis using d by (simp add: tryAllocateWaiting_def)
  next
    case False
    then show ?thesis
      using d by (simp add: tryAllocateWaiting_def retryLoop_drainRetry)
  qed
  have w: "sw = map ((!) (waitingQueue st))
           (filter (failsAtVisit (memory st) (waitingQueue st)) [0..<length (waitingQueue st)])"
    using drainRetry_waiting [of "memory st" "waitingQueue st"] d by simp
  have p: "map fst pl = map ((!) (waitingQueue st))
           (filter (\<lambda>i. \<not> failsAtVisit (memory st) (waitingQueue st) i)
              [0..<length (waitingQueue st)])"
    using drainRetry_placed [of "memory st" "waitingQueue st"] d by simp
  have e: "pool' = poolAtVisit (memory st) (waitingQueue st) (length (waitingQueue st))"
    using d by (simp add: poolAtVisit_def)
  have s: "\<forall>i<length (waitingQueue st).
           poolAtVisit (memory st) (waitingQueue st) (Suc i) =
             (let pool = poolAtVisit (memory st) (waitingQueue st) i; j = waitingQueue st ! i;
                  k = nat (findBest pool (jobSize j))
              in if failsAtVisit (memory st) (waitingQueue st) i then pool
                 else pool[k := occupy (pool ! k) j])"
    by (simp add: poolAtVisit_step Let_def)
  have r: "length pool' = length (memory st) \<and> distinct (map snd pl)
     \<and> (\<forall>(j, k)\<in>set pl.
           k < length (memory st) \<and> isFree (memory st ! k)
           \<and> pool' ! k = occupy (memory st ! k) j)
     \<and> (\<forall>k<length (memory st). k \<notin> snd ` set pl \<longrightarrow> pool' ! k = memory st ! k)"
    using drainRetry_pool [of "memory st" "waitingQueue st"] d by simp
  show ?thesis
    unfolding d prod.case using run w p e s r by blast
qed

theorem tryAllocateWaiting_one_pass_witness:
  "tryAllocateWaiting
     \<lparr>memory =
        [\<lparr>id_p = 1, size_p = 5, isFree = True, jobNumber_p = - 1, jobSize_p = 0,
           internalFragment = 0\<rparr>,
         \<lparr>id_p = 2, size_p = 10, isFree = True, jobNumber_p = - 1, jobSize_p = 0,
           internalFragment = 0\<rparr>],
      waitingQueue =
        [\<lparr>jobNumber = 3, jobSize = 20\<rparr>, \<lparr>jobNumber = 4, jobSize = 8\<rparr>,
         \<lparr>jobNumber = 5, jobSize = 7\<rparr>, \<lparr>jobNumber = 6, jobSize = 3\<rparr>],
      deallocatedJobs = [], cout = []\<rparr> =
   \<lparr>memory =
      [\<lparr>id_p = 1, size_p = 5, isFree = False, jobNumber_p = 6, jobSize_p = 3,
         internalFragment = 2\<rparr>,
       \<lparr>id_p = 2, size_p = 10, isFree = False, jobNumber_p = 4, jobSize_p = 8,
         internalFragment = 2\<rparr>],
    waitingQueue = [\<lparr>jobNumber = 3, jobSize = 20\<rparr>, \<lparr>jobNumber = 5, jobSize = 7\<rparr>],
    deallocatedJobs = [],
    cout = [WaitingAllocated 4 2, WaitingAllocated 6 1]\<rparr>"
  using tryAllocateWaiting_one_pass
    [of "\<lparr>memory =
        [\<lparr>id_p = 1, size_p = 5, isFree = True, jobNumber_p = - 1, jobSize_p = 0,
           internalFragment = 0\<rparr>,
         \<lparr>id_p = 2, size_p = 10, isFree = True, jobNumber_p = - 1, jobSize_p = 0,
           internalFragment = 0\<rparr>],
      waitingQueue =
        [\<lparr>jobNumber = 3, jobSize = 20\<rparr>, \<lparr>jobNumber = 4, jobSize = 8\<rparr>,
         \<lparr>jobNumber = 5, jobSize = 7\<rparr>, \<lparr>jobNumber = 6, jobSize = 3\<rparr>],
      deallocatedJobs = [], cout = []\<rparr>"]
  by (simp add: findBest_def INT_MAX_def occupy_def word_sless_alt word_sle_eq)

section \<open>Deallocation: release, history, sweep\<close>

lemma tryAllocateWaiting_drainRetry:
  "tryAllocateWaiting st =
     (case drainRetry (memory st) (waitingQueue st) of
        (pool', placements, stillWaiting) \<Rightarrow>
          st\<lparr>memory := pool', waitingQueue := stillWaiting,
             cout := cout st @
               map (\<lambda>(j, k). WaitingAllocated (jobNumber j) (id_p (memory st ! k)))
                 placements\<rparr>)"
proof (cases "waitingQueue st = []")
  case True
  then show ?thesis by (simp add: tryAllocateWaiting_def)
next
  case False
  then show ?thesis
    by (simp add: tryAllocateWaiting_def retryLoop_drainRetry split: prod.splits)
qed

lemma deallocLoop_not_found:
  assumes "\<forall>p\<in>set ps. \<not> holds n p"
  shows "deallocLoop ps i n st = st\<lparr>cout := cout st @ [JobNotFound]\<rparr>"
  using assms by (induction ps arbitrary: i) (auto simp: holds_def)

lemma deallocLoop_found:
  assumes "\<exists>p\<in>set ps. holds n p"
  shows "\<exists>k<length ps. holds n (ps ! k) \<and> (\<forall>i<k. \<not> holds n (ps ! i))
           \<and> deallocLoop ps i0 n st =
               tryAllocateWaiting
                 (st\<lparr>cout := cout st @ [Deallocated n (id_p (ps ! k))],
                     deallocatedJobs :=
                       deallocatedJobs st @ [\<lparr>jobNumber = n, jobSize = jobSize_p (ps ! k)\<rparr>],
                     memory := (memory st)[i0 + k := release (ps ! k)]\<rparr>)"
  using assms
proof (induction ps arbitrary: i0)
  case Nil
  then show ?case by simp
next
  case (Cons p ps)
  show ?case
  proof (cases "holds n p")
    case True
    then show ?thesis
      by (intro exI [of _ 0]) (simp add: holds_def)
  next
    case False
    with Cons.prems have "\<exists>p\<in>set ps. holds n p" by simp
    from Cons.IH [OF this, of "Suc i0"]
    obtain k where k: "k < length ps" "holds n (ps ! k)" "\<forall>i<k. \<not> holds n (ps ! i)"
      "deallocLoop ps (Suc i0) n st =
               tryAllocateWaiting
                 (st\<lparr>cout := cout st @ [Deallocated n (id_p (ps ! k))],
                     deallocatedJobs :=
                       deallocatedJobs st @ [\<lparr>jobNumber = n, jobSize = jobSize_p (ps ! k)\<rparr>],
                     memory := (memory st)[Suc i0 + k := release (ps ! k)]\<rparr>)"
      by blast
    have "\<forall>i<Suc k. \<not> holds n ((p # ps) ! i)"
      using k(3) False by (auto simp: less_Suc_eq_0_disj)
    moreover have "deallocLoop (p # ps) i0 n st = deallocLoop ps (Suc i0) n st"
      using False by (auto simp: holds_def)
    ultimately show ?thesis
      using k by (intro exI [of _ "Suc k"]) simp
  qed
qed

text \<open>
  C3.  When some occupied partition holds job number \<open>n\<close>, \<^verbatim>\<open>deallocateJob\<close> takes
  the first such partition, resets it to the free state (no occupant, fragment 0),
  appends the released job to the deallocation history, and the state it returns is the
  result of one retry sweep, run on that state with its whole waiting queue.
\<close>

theorem deallocateJob_release_then_sweep:
  assumes "\<exists>p\<in>set (memory st). holds n p"
  shows "\<exists>k<length (memory st).
           holds n (memory st ! k) \<and> (\<forall>i<k. \<not> holds n (memory st ! i))
         \<and> deallocateJob n st =
             tryAllocateWaiting
               (st\<lparr>cout := cout st @ [Deallocated n (id_p (memory st ! k))],
                   deallocatedJobs :=
                     deallocatedJobs st @
                       [\<lparr>jobNumber = n, jobSize = jobSize_p (memory st ! k)\<rparr>],
                   memory := (memory st)
                     [k := (memory st ! k)\<lparr>isFree := True, jobNumber_p := - 1,
                             jobSize_p := 0, internalFragment := 0\<rparr>]\<rparr>)"
  using deallocLoop_found [OF assms, of 0 st]
  by (simp add: deallocateJob_def release_def)

theorem deallocateJob_release_then_sweep_witness:
  "(\<exists>p\<in>set [\<lparr>id_p = 1, size_p = 5, isFree = False, jobNumber_p = 1, jobSize_p = 5,
                internalFragment = 0\<rparr>,
              \<lparr>id_p = 2, size_p = 10, isFree = False, jobNumber_p = 2, jobSize_p = 7,
                internalFragment = 3\<rparr>]. holds 2 p)
   \<and> deallocateJob 2
        \<lparr>memory =
           [\<lparr>id_p = 1, size_p = 5, isFree = False, jobNumber_p = 1, jobSize_p = 5,
              internalFragment = 0\<rparr>,
            \<lparr>id_p = 2, size_p = 10, isFree = False, jobNumber_p = 2, jobSize_p = 7,
              internalFragment = 3\<rparr>],
         waitingQueue = [\<lparr>jobNumber = 3, jobSize = 12\<rparr>, \<lparr>jobNumber = 4, jobSize = 8\<rparr>],
         deallocatedJobs = [], cout = []\<rparr> =
      \<lparr>memory =
         [\<lparr>id_p = 1, size_p = 5, isFree = False, jobNumber_p = 1, jobSize_p = 5,
            internalFragment = 0\<rparr>,
          \<lparr>id_p = 2, size_p = 10, isFree = False, jobNumber_p = 4, jobSize_p = 8,
            internalFragment = 2\<rparr>],
       waitingQueue = [\<lparr>jobNumber = 3, jobSize = 12\<rparr>],
       deallocatedJobs = [\<lparr>jobNumber = 2, jobSize = 7\<rparr>],
       cout = [Deallocated 2 2, WaitingAllocated 4 2]\<rparr>"
proof -
  let ?st = "\<lparr>memory =
           [\<lparr>id_p = 1, size_p = 5, isFree = False, jobNumber_p = 1, jobSize_p = 5,
              internalFragment = 0\<rparr>,
            \<lparr>id_p = 2, size_p = 10, isFree = False, jobNumber_p = 2, jobSize_p = 7,
              internalFragment = 3\<rparr>],
         waitingQueue = [\<lparr>jobNumber = 3, jobSize = 12\<rparr>, \<lparr>jobNumber = 4, jobSize = 8\<rparr>],
         deallocatedJobs = [], cout = []\<rparr>"
  have h: "\<exists>p\<in>set (memory ?st). holds 2 p"
    by (simp add: holds_def)
  from deallocateJob_release_then_sweep [OF h]
  obtain k where k: "k < length (memory ?st)" "holds 2 (memory ?st ! k)"
    "deallocateJob 2 ?st =
             tryAllocateWaiting
               (?st\<lparr>cout := cout ?st @ [Deallocated 2 (id_p (memory ?st ! k))],
                   deallocatedJobs :=
                     deallocatedJobs ?st @
                       [\<lparr>jobNumber = 2, jobSize = jobSize_p (memory ?st ! k)\<rparr>],
                   memory := (memory ?st)
                     [k := (memory ?st ! k)\<lparr>isFree := True, jobNumber_p := - 1,
                             jobSize_p := 0, internalFragment := 0\<rparr>]\<rparr>)"
    by blast
  from k(1,2) have "k = 1"
    by (auto simp: holds_def less_Suc_eq numeral_2_eq_2)
  with k(3) have "deallocateJob 2 ?st =
      \<lparr>memory =
         [\<lparr>id_p = 1, size_p = 5, isFree = False, jobNumber_p = 1, jobSize_p = 5,
            internalFragment = 0\<rparr>,
          \<lparr>id_p = 2, size_p = 10, isFree = False, jobNumber_p = 4, jobSize_p = 8,
            internalFragment = 2\<rparr>],
       waitingQueue = [\<lparr>jobNumber = 3, jobSize = 12\<rparr>],
       deallocatedJobs = [\<lparr>jobNumber = 2, jobSize = 7\<rparr>],
       cout = [Deallocated 2 2, WaitingAllocated 4 2]\<rparr>"
    by (simp add: tryAllocateWaiting_def findBest_def INT_MAX_def occupy_def
        word_sless_alt word_sle_eq)
  with h show ?thesis by simp
qed

text \<open>
  C5.  The messages of one call of \<^verbatim>\<open>deallocateJob\<close> contain \<^verbatim>\<open>Job not found\<close>
  exactly when no occupied partition holds the number, and then that message is all the
  call does: the pool, the waiting queue and the deallocation history are the ones it
  was given, whether or not the number is that of a waiting job.
\<close>

theorem deallocateJob_not_found:
  "(JobNotFound \<in> set (drop (length (cout st)) (cout (deallocateJob n st)))
      \<longleftrightarrow> (\<forall>p\<in>set (memory st). \<not> holds n p))
   \<and> ((\<forall>p\<in>set (memory st). \<not> holds n p) \<longrightarrow>
        deallocateJob n st = st\<lparr>cout := cout st @ [JobNotFound]\<rparr>
      \<and> memory (deallocateJob n st) = memory st
      \<and> waitingQueue (deallocateJob n st) = waitingQueue st
      \<and> deallocatedJobs (deallocateJob n st) = deallocatedJobs st)"
proof (cases "\<forall>p\<in>set (memory st). \<not> holds n p")
  case True
  then have "deallocateJob n st = st\<lparr>cout := cout st @ [JobNotFound]\<rparr>"
    by (simp add: deallocateJob_def deallocLoop_not_found)
  with True show ?thesis by simp
next
  case False
  then have "\<exists>p\<in>set (memory st). holds n p" by blast
  from deallocLoop_found [OF this, of 0 st]
  obtain k where "deallocateJob n st =
               tryAllocateWaiting
                 (st\<lparr>cout := cout st @ [Deallocated n (id_p (memory st ! k))],
                     deallocatedJobs :=
                       deallocatedJobs st @
                         [\<lparr>jobNumber = n, jobSize = jobSize_p (memory st ! k)\<rparr>],
                     memory := (memory st)[k := release (memory st ! k)]\<rparr>)"
    by (auto simp: deallocateJob_def)
  then have "JobNotFound \<notin> set (drop (length (cout st)) (cout (deallocateJob n st)))"
    by (auto simp: tryAllocateWaiting_drainRetry split: prod.splits)
  with False show ?thesis by blast
qed

theorem deallocateJob_not_found_witness:
  "\<not> holds 1 \<lparr>id_p = 1, size_p = 5, isFree = True, jobNumber_p = - 1, jobSize_p = 0,
                internalFragment = 0\<rparr>
   \<and> deallocateJob 1
        \<lparr>memory =
           [\<lparr>id_p = 1, size_p = 5, isFree = True, jobNumber_p = - 1, jobSize_p = 0,
              internalFragment = 0\<rparr>],
         waitingQueue = [\<lparr>jobNumber = 1, jobSize = 4\<rparr>],
         deallocatedJobs = [], cout = []\<rparr> =
      \<lparr>memory =
         [\<lparr>id_p = 1, size_p = 5, isFree = True, jobNumber_p = - 1, jobSize_p = 0,
            internalFragment = 0\<rparr>],
       waitingQueue = [\<lparr>jobNumber = 1, jobSize = 4\<rparr>],
       deallocatedJobs = [], cout = [JobNotFound]\<rparr>"
  using deallocateJob_not_found
    [of "\<lparr>memory =
           [\<lparr>id_p = 1, size_p = 5, isFree = True, jobNumber_p = - 1, jobSize_p = 0,
              internalFragment = 0\<rparr>],
         waitingQueue = [\<lparr>jobNumber = 1, jobSize = 4\<rparr>],
         deallocatedJobs = [], cout = []\<rparr>" 1]
  by (simp add: holds_def)

section \<open>The invariant of the program\<close>

lemma release_sel [simp]:
  "id_p (release p) = id_p p" "size_p (release p) = size_p p" "isFree (release p)"
  "internalFragment (release p) = 0"
  by (simp_all add: release_def)

lemma ids_update:
  assumes "id_p x = id_p (mem ! k)"
  shows "map id_p (mem[k := x]) = map id_p mem"
proof (cases "k < length mem")
  case True
  then have "(map id_p mem)[k := id_p (mem ! k)] = map id_p mem"
    by (simp add: list_update_same_conv)
  then show ?thesis using assms by (simp add: map_update)
next
  case False
  then show ?thesis by (simp add: list_update_beyond)
qed

lemma idsIncreasing_cong:
  assumes "map id_p mem' = map id_p mem"
  shows "idsIncreasing mem' = idsIncreasing mem"
proof -
  have "idsIncreasing m = sorted_wrt (\<lambda>a b. a <s b) (map id_p m)" for m
    by (simp add: idsIncreasing_def sorted_wrt_map)
  then show ?thesis using assms by simp
qed

lemma occupants_single:
  "occupants [p] = (if isFree p then [] else [jobNumber_p p])"
  by (simp add: occupants_def)

lemma occupants_Cons:
  "occupants (p # ps) = occupants [p] @ occupants ps"
  by (simp add: occupants_def)

lemma occupants_update:
  assumes "k < length mem"
  shows "mset (occupants (mem[k := x])) + mset (occupants [mem ! k]) =
           mset (occupants mem) + mset (occupants [x])"
  using assms
proof (induction mem arbitrary: k)
  case Nil
  then show ?case by simp
next
  case (Cons p ps)
  show ?case
  proof (cases k)
    case 0
    then show ?thesis
      by (simp add: occupants_Cons [of p ps] occupants_Cons [of x ps])
  next
    case (Suc k')
    with Cons.prems have "k' < length ps" by simp
    from Cons.IH [OF this] Suc show ?thesis
      by (simp add: occupants_Cons [of p ps] occupants_Cons [of p "ps[k' := x]"])
  qed
qed

lemma occupants_place:
  assumes "k < length mem" "isFree (mem ! k)"
  shows "mset (occupants (mem[k := occupy (mem ! k) j])) =
           add_mset (jobNumber j) (mset (occupants mem))"
  using occupants_update [OF assms(1), of "occupy (mem ! k) j"] assms(2)
  by (simp add: occupants_single)

lemma occupants_release:
  assumes "k < length mem" "holds n (mem ! k)"
  shows "add_mset n (mset (occupants (mem[k := release (mem ! k)]))) = mset (occupants mem)"
  using occupants_update [OF assms(1), of "release (mem ! k)"] assms(2)
  by (simp add: occupants_single holds_def)

lemma partOk_occupy:
  assumes "0 <s size_p p" "0 <s jobSize j" "fits (jobSize j) p"
  shows "partOk (occupy p j)"
  using assms by (simp add: partOk_def fits_def)

lemma partOk_release:
  assumes "partOk p"
  shows "partOk (release p)"
  using assms by (simp add: partOk_def)

lemma partOk_update:
  assumes "\<forall>p\<in>set mem. partOk p" "partOk x"
  shows "\<forall>p\<in>set (mem[k := x]). partOk p"
  using assms set_update_subset_insert [of mem k x] by auto

lemma assigned_append [simp]:
  "assigned (xs @ ys) = assigned xs @ assigned ys"
  by (induction xs rule: assigned.induct) simp_all

lemma assigned_sweep [simp]:
  "assigned (map (\<lambda>(j, k). WaitingAllocated (jobNumber j) (f k)) pl) = []"
  by (induction pl) auto

lemma assigned_invalid [simp]:
  "assigned (replicate m InvalidSize) = []"
  by (induction m) simp_all

lemma drainRetry_live:
  "case drainRetry pool q of
     (pool', placements, stillWaiting) \<Rightarrow>
       mset (occupants pool') + mset (map jobNumber stillWaiting) =
         mset (occupants pool) + mset (map jobNumber q)"
proof (induction q arbitrary: pool)
  case Nil
  then show ?case by simp
next
  case (Cons j js)
  show ?case
  proof (cases "findBest pool (jobSize j) = - 1")
    case True
    then show ?thesis
      using Cons.IH [of pool] by (auto split: prod.splits)
  next
    case False
    with findBest_range [of pool "jobSize j"]
    obtain k0 where k0: "k0 < length pool" "findBest pool (jobSize j) = int k0"
      "fits (jobSize j) (pool ! k0)"
      by blast
    then have "mset (occupants (pool[k0 := occupy (pool ! k0) j])) =
                 add_mset (jobNumber j) (mset (occupants pool))"
      using occupants_place [of k0 pool j] by (simp add: fits_def)
    then show ?thesis
      using Cons.IH [of "pool[k0 := occupy (pool ! k0) j]"] False k0(2)
      by (auto split: prod.splits)
  qed
qed

lemma drainRetry_wf:
  assumes "\<forall>p\<in>set pool. partOk p" "\<forall>j\<in>set q. 0 <s jobSize j"
  shows "case drainRetry pool q of
           (pool', placements, stillWaiting) \<Rightarrow>
             (\<forall>p\<in>set pool'. partOk p) \<and> map id_p pool' = map id_p pool
           \<and> set stillWaiting \<subseteq> set q"
  using assms
proof (induction q arbitrary: pool)
  case Nil
  then show ?case by simp
next
  case (Cons j js)
  show ?case
  proof (cases "findBest pool (jobSize j) = - 1")
    case True
    then show ?thesis
      using Cons.IH [of pool] Cons.prems by (auto split: prod.splits)
  next
    case False
    with findBest_range [of pool "jobSize j"]
    obtain k0 where k0: "k0 < length pool" "findBest pool (jobSize j) = int k0"
      "fits (jobSize j) (pool ! k0)"
      by blast
    let ?pool1 = "pool[k0 := occupy (pool ! k0) j]"
    have "partOk (pool ! k0)" using Cons.prems(1) k0(1) by simp
    then have "partOk (occupy (pool ! k0) j)"
      using partOk_occupy [of "pool ! k0" j] k0(3) Cons.prems(2) by (simp add: partOk_def)
    then have ok: "\<forall>p\<in>set ?pool1. partOk p"
      using partOk_update [OF Cons.prems(1)] by blast
    have ids: "map id_p ?pool1 = map id_p pool"
      by (simp add: ids_update)
    from Cons.IH [OF ok] Cons.prems(2) ids show ?thesis
      using False k0(2) by (auto split: prod.splits)
  qed
qed

lemma live_transfer:
  assumes "mset xs = mset ys" "distinct ys" "\<forall>x\<in>set ys. P x"
  shows "distinct xs \<and> (\<forall>x\<in>set xs. P x)"
  using assms mset_eq_imp_distinct_iff [OF assms(1)] mset_eq_setD [OF assms(1)] by simp

lemma tryAllocateWaiting_invariant:
  assumes "invariant c st"
  shows "invariant c (tryAllocateWaiting st)"
proof -
  obtain pool' pl sw where d: "drainRetry (memory st) (waitingQueue st) = (pool', pl, sw)"
    by (cases "drainRetry (memory st) (waitingQueue st)") auto
  let ?st' = "st\<lparr>memory := pool', waitingQueue := sw,
             cout := cout st @
               map (\<lambda>(j, k). WaitingAllocated (jobNumber j) (id_p (memory st ! k))) pl\<rparr>"
  have eq: "tryAllocateWaiting st = ?st'"
    using d by (simp add: tryAllocateWaiting_drainRetry)
  have wf: "\<forall>p\<in>set pool'. partOk p" "map id_p pool' = map id_p (memory st)"
    "set sw \<subseteq> set (waitingQueue st)"
    using drainRetry_wf [of "memory st" "waitingQueue st"] assms d
    by (simp_all add: invariant_def)
  have "mset (liveNumbers ?st') = mset (liveNumbers st)"
    using drainRetry_live [of "memory st" "waitingQueue st"] d
    by (simp add: liveNumbers_def)
  from live_transfer [OF this, of "\<lambda>x. 0 <s x \<and> x <s c"] assms
  have live: "distinct (liveNumbers ?st')" "\<forall>x\<in>set (liveNumbers ?st'). 0 <s x \<and> x <s c"
    by (simp_all add: invariant_def)
  have "idsIncreasing pool'"
    using idsIncreasing_cong [OF wf(2)] assms by (simp add: invariant_def)
  moreover have "\<forall>j\<in>set sw. 0 <s jobSize j"
    using wf(3) assms by (auto simp: invariant_def)
  moreover have "map sint (assigned (cout ?st')) = [1..sint c - 1]"
    using assms by (simp add: invariant_def)
  moreover have "0 <s c" using assms by (simp add: invariant_def)
  ultimately have "invariant c ?st'"
    using wf(1) live unfolding invariant_def by simp
  with eq show ?thesis by simp
qed

lemma deallocateJob_invariant:
  assumes "invariant c st"
  shows "invariant c (deallocateJob n st)"
proof (cases "\<forall>p\<in>set (memory st). \<not> holds n p")
  case True
  then have "deallocateJob n st = st\<lparr>cout := cout st @ [JobNotFound]\<rparr>"
    by (simp add: deallocateJob_def deallocLoop_not_found)
  then show ?thesis
    using assms by (simp add: invariant_def liveNumbers_def)
next
  case False
  then have "\<exists>p\<in>set (memory st). holds n p" by blast
  from deallocLoop_found [OF this, of 0 st]
  obtain k where k: "k < length (memory st)" "holds n (memory st ! k)"
    "deallocateJob n st =
       tryAllocateWaiting
         (st\<lparr>cout := cout st @ [Deallocated n (id_p (memory st ! k))],
             deallocatedJobs :=
               deallocatedJobs st @ [\<lparr>jobNumber = n, jobSize = jobSize_p (memory st ! k)\<rparr>],
             memory := (memory st)[k := release (memory st ! k)]\<rparr>)"
    (is "_ = tryAllocateWaiting ?st1")
    by (auto simp: deallocateJob_def)
  have "partOk (memory st ! k)"
    using assms k(1) by (simp add: invariant_def)
  then have ok: "\<forall>p\<in>set (memory ?st1). partOk p"
    using partOk_update [of "memory st" "release (memory st ! k)" k] partOk_release assms
    by (simp add: invariant_def)
  have ids: "idsIncreasing (memory ?st1)"
    using idsIncreasing_cong [of "memory ?st1" "memory st"] assms
    by (simp add: ids_update invariant_def)
  have "mset (n # liveNumbers ?st1) = mset (liveNumbers st)"
    using occupants_release [OF k(1,2)] by (simp add: liveNumbers_def)
  from live_transfer [OF this, of "\<lambda>x. 0 <s x \<and> x <s c"] assms
  have live: "distinct (liveNumbers ?st1)" "\<forall>x\<in>set (liveNumbers ?st1). 0 <s x \<and> x <s c"
    by (simp_all add: invariant_def)
  have "invariant c ?st1"
    unfolding invariant_def using ok ids live assms
    by (simp add: invariant_def)
  from tryAllocateWaiting_invariant [OF this] k(3) show ?thesis by simp
qed

lemma sint_succ:
  assumes "c \<noteq> INT_MAX"
  shows "sint (c + 1) = sint c + 1"
proof -
  have "sint c \<noteq> sint INT_MAX"
    using assms signed_word_eqI [of c INT_MAX] by blast
  then have "sint c \<noteq> 2147483647" by (simp add: INT_MAX_def)
  moreover have "sint c < 2 ^ 31" "- (2 ^ 31) \<le> sint c"
    using sint_lt [of c] sint_ge [of c] by simp_all
  ultimately show ?thesis
    by (simp add: sint_word_ariths signed_take_bit_int_eq_self)
qed

lemma allocateJob_invariant:
  assumes inv: "invariant c st" and pos: "0 <s s" and c: "c \<noteq> INT_MAX"
  shows "invariant (c + 1) (allocateJob \<lparr>jobNumber = c, jobSize = s\<rparr> st)"
proof -
  let ?job = "\<lparr>jobNumber = c, jobSize = s\<rparr>"
  let ?st' = "allocateJob ?job st"
  have c1: "sint (c + 1) = sint c + 1" by (rule sint_succ [OF c])
  have cpos: "0 < sint c" using inv by (simp add: invariant_def word_sless_alt)
  have fresh: "distinct (c # liveNumbers st)"
    "\<forall>x\<in>set (c # liveNumbers st). 0 <s x \<and> x <s c + 1"
    using inv c1 by (auto simp: invariant_def word_sless_alt)
  have out: "map sint (assigned (cout st) @ [c]) = [1..sint (c + 1) - 1]"
    using inv c1 cpos upto_rec2 [of 1 "sint c"] by (simp add: invariant_def)
  show ?thesis
  proof (cases "findBest (memory st) s = - 1")
    case True
    then have eq: "?st' = st\<lparr>waitingQueue := waitingQueue st @ [?job],
           cout := cout st @ [AddedToWaiting c]\<rparr>"
      by (simp add: allocateJob_def)
    have "mset (liveNumbers ?st') = mset (c # liveNumbers st)"
      by (simp add: eq liveNumbers_def)
    from live_transfer [OF this fresh]
    have "distinct (liveNumbers ?st')" "\<forall>x\<in>set (liveNumbers ?st'). 0 <s x \<and> x <s c + 1"
      by simp_all
    moreover have "map sint (assigned (cout ?st')) = [1..sint (c + 1) - 1]"
      using out by (simp add: eq)
    moreover have "0 <s c + 1"
      using c1 cpos by (simp add: word_sless_alt)
    ultimately show ?thesis
      unfolding invariant_def using inv pos by (simp add: eq invariant_def)
  next
    case False
    with findBest_range [of "memory st" s]
    obtain k where k: "k < length (memory st)" "findBest (memory st) s = int k"
      "fits s (memory st ! k)"
      by blast
    let ?p = "occupy (memory st ! k) ?job"
    have eq: "?st' = st\<lparr>memory := (memory st)[k := ?p],
           cout := cout st @ [Allocated c (id_p (memory st ! k))]\<rparr>"
      using k(2) by (simp add: allocateJob_def Let_def)
    have "mset (liveNumbers ?st') = mset (c # liveNumbers st)"
      using occupants_place [OF k(1), of ?job] k(3) by (simp add: eq liveNumbers_def fits_def)
    from live_transfer [OF this fresh]
    have "distinct (liveNumbers ?st')" "\<forall>x\<in>set (liveNumbers ?st'). 0 <s x \<and> x <s c + 1"
      by simp_all
    moreover have "map sint (assigned (cout ?st')) = [1..sint (c + 1) - 1]"
      using out by (simp add: eq)
    moreover have "0 <s c + 1"
      using c1 cpos by (simp add: word_sless_alt)
    moreover have "partOk (memory st ! k)"
      using inv k(1) by (simp add: invariant_def)
    then have "partOk ?p"
      using partOk_occupy [of "memory st ! k" ?job] k(3) pos by (simp add: partOk_def)
    then have "\<forall>p\<in>set (memory ?st'). partOk p"
      using partOk_update [of "memory st" ?p k] inv by (simp add: eq invariant_def)
    moreover have "idsIncreasing (memory ?st')"
      using idsIncreasing_cong [of "memory ?st'" "memory st"] inv
      by (simp add: eq ids_update invariant_def)
    moreover have "\<forall>j\<in>set (waitingQueue ?st'). 0 <s jobSize j"
      using inv by (simp add: eq invariant_def)
    ultimately show ?thesis
      unfolding invariant_def by blast
  qed
qed

lemma readPositive_result:
  assumes "readPositive inp out = (r, out')"
  shows "\<exists>c. out' = out @ replicate (length c) InvalidSize \<and> (\<forall>x\<in>set c. x \<le>s 0)
           \<and> (case r of None \<Rightarrow> inp = c | Some (s, rest) \<Rightarrow> inp = c @ s # rest \<and> 0 <s s)"
  using assms
proof (induction inp arbitrary: out)
  case Nil
  then show ?case by simp
next
  case (Cons x inp)
  show ?case
  proof (cases "x \<le>s 0")
    case True
    with Cons.prems have "readPositive inp (out @ [InvalidSize]) = (r, out')" by simp
    from Cons.IH [OF this]
    obtain c where c: "out' = (out @ [InvalidSize]) @ replicate (length c) InvalidSize"
      "\<forall>x\<in>set c. x \<le>s 0"
      "case r of None \<Rightarrow> inp = c | Some (s, rest) \<Rightarrow> inp = c @ s # rest \<and> 0 <s s"
      by blast
    have "out' = out @ replicate (length (x # c)) InvalidSize"
      using c(1) by (simp add: replicate_app_Cons_same)
    moreover have "\<forall>y\<in>set (x # c). y \<le>s 0" using c(2) True by simp
    moreover have "case r of None \<Rightarrow> x # inp = x # c
                   | Some (s, rest) \<Rightarrow> x # inp = (x # c) @ s # rest \<and> 0 <s s"
      using c(3) by (auto split: option.splits)
    ultimately show ?thesis by blast
  next
    case False
    with Cons.prems have "r = Some (x, inp)" "out' = out" by simp_all
    moreover have "0 <s x" using False by (simp add: word_sle_eq word_sless_alt)
    ultimately show ?thesis by (intro exI [of _ "[]"]) simp
  qed
qed

lemma invariant_cout:
  assumes "invariant c st"
  shows "invariant c (st\<lparr>cout := cout st @ replicate m InvalidSize\<rparr>)"
  using assms by (simp add: invariant_def liveNumbers_def)

lemma menuLoop_invariant:
  assumes "invariant c st" "menuLoop c st inp = Some st'"
  shows "\<exists>c'. invariant c' st'"
  using assms
proof (induction c st inp rule: menuLoop.induct)
  case (1 jobCounter st)
  then show ?case by auto
next
  case (2 jobCounter st choice inp)
  consider (submit) "choice = 1" | (release) "choice \<noteq> 1" "choice = 2"
    | (status) "choice \<noteq> 1" "choice \<noteq> 2" "choice = 3"
    | (exit) "choice \<noteq> 1" "choice \<noteq> 2" "choice \<noteq> 3" "choice = 4"
    | (other) "choice \<noteq> 1" "choice \<noteq> 2" "choice \<noteq> 3" "choice \<noteq> 4"
    by blast
  then show ?case
  proof cases
    case submit
    with "2.prems"(2) have c: "jobCounter \<noteq> INT_MAX"
      by (auto split: if_splits)
    obtain r out where r: "readPositive inp (cout st) = (r, out)"
      by (cases "readPositive inp (cout st)") auto
    from readPositive_result [OF r]
    obtain m where m: "out = cout st @ replicate m InvalidSize"
      "case r of None \<Rightarrow> True | Some (s, rest) \<Rightarrow> 0 <s s"
      by (auto split: option.splits)
    have inv1: "invariant jobCounter (st\<lparr>cout := out\<rparr>)"
      using invariant_cout [OF "2.prems"(1)] m(1) by simp
    show ?thesis
    proof (cases r)
      case None
      with "2.prems"(2) submit c r have "st' = st\<lparr>cout := out\<rparr>" by simp
      with inv1 show ?thesis by blast
    next
      case (Some a)
      obtain s rest where a: "a = (s, rest)" by (cases a) auto
      with Some m(2) have pos: "0 <s s" by simp
      have run: "menuLoop (jobCounter + 1)
                  (allocateJob \<lparr>jobNumber = jobCounter, jobSize = s\<rparr> (st\<lparr>cout := out\<rparr>))
                  rest = Some st'"
        using "2.prems"(2) submit c r Some a by simp
      show ?thesis
        using "2.IH"(1) [OF submit c r [symmetric] Some a [symmetric]
            allocateJob_invariant [OF inv1 pos c] run] .
    qed
  next
    case release
    show ?thesis
    proof (cases inp)
      case Nil
      with "2.prems" release show ?thesis by auto
    next
      case (Cons n rest)
      with "2.prems"(2) release
      have run: "menuLoop jobCounter (deallocateJob n st) rest = Some st'" by simp
      show ?thesis
        using "2.IH"(2) [OF release Cons deallocateJob_invariant [OF "2.prems"(1)] run] .
    qed
  next
    case status
    with "2.prems"(2) have "menuLoop jobCounter st inp = Some st'" by simp
    from "2.IH"(3) [OF status "2.prems"(1) this] show ?thesis .
  next
    case exit
    with "2.prems" show ?thesis by auto
  next
    case other
    with "2.prems"(2) have "menuLoop jobCounter st inp = Some st'" by simp
    from "2.IH"(4) [OF other "2.prems"(1) this] show ?thesis .
  qed
qed

lemma sint_succ_less:
  assumes "i <s (n::int32)"
  shows "sint (i + 1) = sint i + 1"
proof -
  have "sint i < sint n" using assms by (simp add: word_sless_alt)
  moreover have "sint n < 2 ^ 31" using sint_lt [of n] by simp
  ultimately have "i \<noteq> INT_MAX" by (auto simp: INT_MAX_def)
  then show ?thesis by (rule sint_succ)
qed

lemma initPartitions_result:
  assumes "initPartitions i n inp st = (st', r)"
  shows "\<exists>c. memory st' = memory st @ freshPool i (filter (\<lambda>s. 0 <s s) c)
           \<and> cout st' = cout st @ replicate (length (filter (\<lambda>s. s \<le>s 0) c)) InvalidSize
           \<and> waitingQueue st' = waitingQueue st
           \<and> deallocatedJobs st' = deallocatedJobs st
           \<and> (case r of
                None \<Rightarrow> inp = c \<and> int (length (filter (\<lambda>s. 0 <s s) c)) < sint n - sint i
              | Some rest \<Rightarrow>
                  inp = c @ rest \<and> length (filter (\<lambda>s. 0 <s s) c) = nat (sint n - sint i))"
  using assms
proof (induction i n inp st rule: initPartitions.induct)
  case (1 i n inp st)
  show ?case
  proof (cases "i <s n")
    case False
    with "1.prems" have "st' = st" "r = Some inp" by simp_all
    moreover have "sint n - sint i \<le> 0" using False by (simp add: word_sless_alt)
    ultimately show ?thesis by (intro exI [of _ "[]"]) simp
  next
    case True
    then have lt: "sint i < sint n" by (simp add: word_sless_alt)
    obtain rr out where rr: "readPositive inp (cout st) = (rr, out)"
      by (cases "readPositive inp (cout st)") auto
    from readPositive_result [OF rr]
    obtain c0 where c0: "out = cout st @ replicate (length c0) InvalidSize"
      "\<forall>x\<in>set c0. x \<le>s 0"
      "case rr of None \<Rightarrow> inp = c0 | Some (s, rest) \<Rightarrow> inp = c0 @ s # rest \<and> 0 <s s"
      by blast
    have neg: "filter (\<lambda>s. 0 <s s) c0 = []" "filter (\<lambda>s. s \<le>s 0) c0 = c0"
      using c0(2) by (auto simp: filter_empty_conv filter_id_conv word_sle_eq word_sless_alt)
    show ?thesis
    proof (cases rr)
      case None
      with "1.prems" True rr have "st' = st\<lparr>cout := out\<rparr>" "r = None"
        by (simp_all del: initPartitions.simps add: initPartitions.simps [of i n inp st])
      with None c0 neg lt show ?thesis by (intro exI [of _ c0]) simp
    next
      case (Some a)
      obtain s rest where a: "a = (s, rest)" by (cases a) auto
      with Some c0(3) have inp: "inp = c0 @ s # rest" and pos: "0 <s s" by simp_all
      let ?st1 = "st\<lparr>memory := memory st @
                    [\<lparr>id_p = i + 1, size_p = s, isFree = True, jobNumber_p = - 1,
                      jobSize_p = 0, internalFragment = 0\<rparr>],
                  cout := out\<rparr>"
      have run: "initPartitions (i + 1) n rest ?st1 = (st', r)"
        using "1.prems" True rr Some a
        by (simp del: initPartitions.simps add: initPartitions.simps [of i n inp st])
      from "1.IH" [OF True rr [symmetric] Some a [symmetric] run]
      obtain c1 where c1:
        "memory st' = memory ?st1 @ freshPool (i + 1) (filter (\<lambda>s. 0 <s s) c1)"
        "cout st' = cout ?st1 @ replicate (length (filter (\<lambda>s. s \<le>s 0) c1)) InvalidSize"
        "waitingQueue st' = waitingQueue ?st1" "deallocatedJobs st' = deallocatedJobs ?st1"
        "case r of
           None \<Rightarrow> rest = c1
                 \<and> int (length (filter (\<lambda>s. 0 <s s) c1)) < sint n - sint (i + 1)
         | Some rest' \<Rightarrow>
             rest = c1 @ rest'
             \<and> length (filter (\<lambda>s. 0 <s s) c1) = nat (sint n - sint (i + 1))"
        by blast
      let ?c = "c0 @ s # c1"
      have npos: "\<not> s \<le>s 0" using pos by (simp add: word_sle_eq word_sless_alt)
      have f: "filter (\<lambda>s. 0 <s s) ?c = s # filter (\<lambda>s. 0 <s s) c1"
        "filter (\<lambda>s. s \<le>s 0) ?c = c0 @ filter (\<lambda>s. s \<le>s 0) c1"
        using neg pos npos by simp_all
      have "memory st' = memory st @ freshPool i (filter (\<lambda>s. 0 <s s) ?c)"
        using c1(1) f(1) by simp
      moreover have
        "cout st' = cout st @ replicate (length (filter (\<lambda>s. s \<le>s 0) ?c)) InvalidSize"
        using c1(2) c0(1) f(2) by (simp add: replicate_add)
      moreover have "waitingQueue st' = waitingQueue st" "deallocatedJobs st' = deallocatedJobs st"
        using c1(3,4) by simp_all
      moreover have "case r of
                None \<Rightarrow> inp = ?c \<and> int (length (filter (\<lambda>s. 0 <s s) ?c)) < sint n - sint i
              | Some rest \<Rightarrow>
                  inp = ?c @ rest \<and> length (filter (\<lambda>s. 0 <s s) ?c) = nat (sint n - sint i)"
        using c1(5) inp f(1) lt sint_succ_less [OF True]
        by (auto split: option.splits)
      ultimately show ?thesis by blast
    qed
  qed
qed

lemma length_freshPool [simp]: "length (freshPool i ss) = length ss"
  by (induction ss arbitrary: i) simp_all

lemma freshPool_props:
  "map size_p (freshPool i ss) = ss \<and> (\<forall>p\<in>set (freshPool i ss). isFree p
     \<and> jobNumber_p p = - 1 \<and> jobSize_p p = 0 \<and> internalFragment p = 0)"
  by (induction ss arbitrary: i) auto

lemma freshPool_ids:
  assumes "sint i + int (length ss) < 2 ^ 31" "k < length ss"
  shows "sint (id_p (freshPool i ss ! k)) = sint i + 1 + int k"
  using assms
proof (induction ss arbitrary: i k)
  case Nil
  then show ?case by simp
next
  case (Cons s ss)
  have "sint i < 2 ^ 31 - 1" using Cons.prems(1) by simp
  then have "i \<noteq> INT_MAX" by (auto simp: INT_MAX_def)
  then have s1: "sint (i + 1) = sint i + 1" by (rule sint_succ)
  show ?case
  proof (cases k)
    case 0
    then show ?thesis using s1 by simp
  next
    case (Suc k')
    with Cons.prems have "sint (i + 1) + int (length ss) < 2 ^ 31" "k' < length ss"
      using s1 by simp_all
    from Cons.IH [OF this] Suc s1 show ?thesis by simp
  qed
qed

lemma freshPool_idsIncreasing:
  assumes "sint i + int (length ss) < 2 ^ 31"
  shows "idsIncreasing (freshPool i ss)"
proof -
  have "id_p (freshPool i ss ! a) <s id_p (freshPool i ss ! b)"
    if "a < b" "b < length ss" for a b
    using that freshPool_ids [OF assms, of a] freshPool_ids [OF assms, of b]
    by (simp add: word_sless_alt)
  then show ?thesis
    by (simp add: idsIncreasing_def sorted_wrt_iff_nth_less)
qed

lemma initPartitions_invariant:
  assumes "initPartitions 0 n inp emptySim = (st, r)"
  shows "invariant 1 st"
proof -
  from initPartitions_result [OF assms]
  obtain c where c: "memory st = freshPool 0 (filter (\<lambda>s. 0 <s s) c)"
    "cout st = replicate (length (filter (\<lambda>s. s \<le>s 0) c)) InvalidSize"
    "waitingQueue st = []"
    "case r of
       None \<Rightarrow> inp = c \<and> int (length (filter (\<lambda>s. 0 <s s) c)) < sint n - sint (0::int32)
     | Some rest \<Rightarrow>
         inp = c @ rest \<and> length (filter (\<lambda>s. 0 <s s) c) = nat (sint n - sint (0::int32))"
    by (auto simp: emptySim_def)
  let ?ss = "filter (\<lambda>s. 0 <s s) c"
  have "sint n < 2 ^ 31" using sint_lt [of n] by simp
  with c(4) have len: "sint (0::int32) + int (length ?ss) < 2 ^ 31"
    by (auto split: option.splits)
  have free: "\<forall>p\<in>set (memory st). isFree p \<and> internalFragment p = 0"
    using freshPool_props [of 0 ?ss] c(1) by simp
  have "set (map size_p (memory st)) \<subseteq> {s. 0 <s s}"
    using freshPool_props [of 0 ?ss] c(1) by auto
  then have ok: "\<forall>p\<in>set (memory st). partOk p"
    using free by (auto simp: partOk_def)
  have "occupants (memory st) = []"
    using free by (simp add: occupants_def filter_empty_conv)
  then have live: "liveNumbers st = []"
    using c(3) by (simp add: liveNumbers_def)
  show ?thesis
    unfolding invariant_def
    using ok live c(2,3) freshPool_idsIncreasing [OF len] c(1)
    by (simp add: word_sless_alt)
qed

lemma main_invariant:
  assumes "main inp = Some st"
  shows "\<exists>c. invariant c st"
proof (cases inp)
  case Nil
  with assms have "st = emptySim" by (simp add: main_def)
  moreover have "initPartitions 0 0 [] emptySim = (emptySim, Some [])"
    by (simp add: word_sless_alt)
  ultimately show ?thesis using initPartitions_invariant by blast
next
  case (Cons n rest)
  obtain st1 r where i: "initPartitions 0 n rest emptySim = (st1, r)"
    by (cases "initPartitions 0 n rest emptySim") auto
  have inv1: "invariant 1 st1" by (rule initPartitions_invariant [OF i])
  show ?thesis
  proof (cases r)
    case None
    with assms Cons i have "st = st1" by (simp add: main_def)
    with inv1 show ?thesis by blast
  next
    case (Some rest')
    with assms Cons i have "menuLoop 1 st1 rest' = Some st" by (simp add: main_def)
    from menuLoop_invariant [OF inv1 this] show ?thesis .
  qed
qed

section \<open>Pool creation\<close>

text \<open>
  What the loop of lines 239-248 does with the sizes it reads.  A size that is 0 or
  negative is answered with \<^verbatim>\<open>Invalid size\<close>, makes no partition, and the same
  partition is asked for again.  So when the loop is through, a prefix \<open>c\<close> of the
  input has been read, the pool is \<open>create\<close> of the positive numbers of \<open>c\<close>, the
  output is one \<^verbatim>\<open>Invalid size\<close> for each other number of \<open>c\<close>, and every partition
  is free, has a positive size and the id of its position.  The loop gets through
  whenever the input holds enough positive numbers.
\<close>

lemma initPartitions_sizes:
  "(initPartitions 0 n inp emptySim = (st, Some rest) \<longrightarrow>
        (\<exists>c. inp = c @ rest
           \<and> memory st = create (filter (\<lambda>s. 0 <s s) c)
           \<and> int (length (memory st)) = max 0 (sint n)
           \<and> cout st = replicate (length (filter (\<lambda>s. s \<le>s 0) c)) InvalidSize
           \<and> waitingQueue st = [] \<and> deallocatedJobs st = [])
        \<and> (\<forall>k<length (memory st).
              sint (id_p (memory st ! k)) = int k + 1 \<and> isFree (memory st ! k)
            \<and> 0 <s size_p (memory st ! k) \<and> internalFragment (memory st ! k) = 0))
   \<and> (nat (sint n) \<le> length (filter (\<lambda>s. 0 <s s) inp) \<longrightarrow>
        (\<exists>st' rest'. initPartitions 0 n inp emptySim = (st', Some rest')))"
proof -
  have b: "(\<exists>c. inp = c @ rest
           \<and> memory st = create (filter (\<lambda>s. 0 <s s) c)
           \<and> int (length (memory st)) = max 0 (sint n)
           \<and> cout st = replicate (length (filter (\<lambda>s. s \<le>s 0) c)) InvalidSize
           \<and> waitingQueue st = [] \<and> deallocatedJobs st = [])
        \<and> (\<forall>k<length (memory st).
              sint (id_p (memory st ! k)) = int k + 1 \<and> isFree (memory st ! k)
            \<and> 0 <s size_p (memory st ! k) \<and> internalFragment (memory st ! k) = 0)"
    if run: "initPartitions 0 n inp emptySim = (st, Some rest)"
  proof -
    from initPartitions_result [OF run]
    obtain c where c: "memory st = freshPool 0 (filter (\<lambda>s. 0 <s s) c)"
      "cout st = replicate (length (filter (\<lambda>s. s \<le>s 0) c)) InvalidSize"
      "waitingQueue st = []" "deallocatedJobs st = []" "inp = c @ rest"
      "length (filter (\<lambda>s. 0 <s s) c) = nat (sint n)"
      by (auto simp: emptySim_def)
    let ?ss = "filter (\<lambda>s. 0 <s s) c"
    have len: "int (length (memory st)) = max 0 (sint n)"
      using c(1,6) by simp
    have "sint n < 2 ^ 31" using sint_lt [of n] by simp
    then have bound: "sint (0::int32) + int (length ?ss) < 2 ^ 31"
      using c(6) by simp
    have each: "sint (id_p (memory st ! k)) = int k + 1 \<and> isFree (memory st ! k)
            \<and> 0 <s size_p (memory st ! k) \<and> internalFragment (memory st ! k) = 0"
      if k: "k < length (memory st)" for k
    proof -
      have k': "k < length ?ss" using k c(1) by simp
      have "memory st ! k \<in> set (freshPool 0 ?ss)" using k c(1) by simp
      then have "isFree (memory st ! k)" "internalFragment (memory st ! k) = 0"
        using freshPool_props [of 0 ?ss] by simp_all
      moreover have "size_p (memory st ! k) = ?ss ! k"
        using freshPool_props [of 0 ?ss] k c(1) by (metis nth_map)
      moreover have "?ss ! k \<in> set ?ss" using k' by (rule nth_mem)
      then have "0 <s ?ss ! k" by simp
      moreover have "sint (id_p (memory st ! k)) = int k + 1"
        using freshPool_ids [OF bound k'] c(1) by simp
      ultimately show ?thesis by simp
    qed
    from c len each show ?thesis by (simp add: create_def)
  qed
  have d: "\<exists>st' rest'. initPartitions 0 n inp emptySim = (st', Some rest')"
    if enough: "nat (sint n) \<le> length (filter (\<lambda>s. 0 <s s) inp)"
  proof -
    obtain st' r where run: "initPartitions 0 n inp emptySim = (st', r)"
      by (cases "initPartitions 0 n inp emptySim") auto
    have "r \<noteq> None"
    proof
      assume "r = None"
      with initPartitions_result [OF run]
      have "int (length (filter (\<lambda>s. 0 <s s) inp)) < sint n" by auto
      with enough show False by simp
    qed
    with run show ?thesis by auto
  qed
  from b d show ?thesis by blast
qed

lemma initPartitions_sizes_example:
  "initPartitions 0 3 [10, 0, - 2, 4, 8, 1, 4] emptySim =
     (\<lparr>memory =
         [\<lparr>id_p = 1, size_p = 10, isFree = True, jobNumber_p = - 1, jobSize_p = 0,
            internalFragment = 0\<rparr>,
          \<lparr>id_p = 2, size_p = 4, isFree = True, jobNumber_p = - 1, jobSize_p = 0,
            internalFragment = 0\<rparr>,
          \<lparr>id_p = 3, size_p = 8, isFree = True, jobNumber_p = - 1, jobSize_p = 0,
            internalFragment = 0\<rparr>],
       waitingQueue = [], deallocatedJobs = [], cout = [InvalidSize, InvalidSize]\<rparr>,
      Some [1, 4])
   \<and> create [10, 4, 8] =
       [\<lparr>id_p = 1, size_p = 10, isFree = True, jobNumber_p = - 1, jobSize_p = 0,
          internalFragment = 0\<rparr>,
        \<lparr>id_p = 2, size_p = 4, isFree = True, jobNumber_p = - 1, jobSize_p = 0,
          internalFragment = 0\<rparr>,
        \<lparr>id_p = 3, size_p = 8, isFree = True, jobNumber_p = - 1, jobSize_p = 0,
          internalFragment = 0\<rparr>]"
proof -
  let ?inp = "[10, 0, - 2, 4, 8, 1, 4] :: int32 list"
  let ?mem = "[\<lparr>id_p = 1, size_p = 10, isFree = True, jobNumber_p = - 1, jobSize_p = 0,
            internalFragment = 0\<rparr>,
          \<lparr>id_p = 2, size_p = 4, isFree = True, jobNumber_p = - 1, jobSize_p = 0,
            internalFragment = 0\<rparr>,
          \<lparr>id_p = 3, size_p = 8, isFree = True, jobNumber_p = - 1, jobSize_p = 0,
            internalFragment = 0\<rparr>] :: Partition list"
  let ?st = "\<lparr>memory = ?mem, waitingQueue = [], deallocatedJobs = [],
              cout = [InvalidSize, InvalidSize]\<rparr>"
  have h: "initPartitions 0 3 ?inp emptySim = (?st, Some [1, 4])"
    by (simp add: emptySim_def word_sless_alt word_sle_eq)
  from initPartitions_sizes [of 3 ?inp ?st "[1, 4]"] h
  obtain c where c: "?inp = c @ [1, 4]" "memory ?st = create (filter (\<lambda>s. 0 <s s) c)"
    by blast
  from c(1) have "c = [10, 0, - 2, 4, 8]" by simp
  with c(2) have "create [10, 4, 8] = ?mem"
    by (simp add: word_sless_alt)
  with h show ?thesis by simp
qed

text \<open>
  C4.  The claim: pool creation is refused when a size is 0 or negative and when no size
  is given, so that a pool without partitions never exists.  The program tests every
  size it reads, as the lemma above says, but it never tests the count of line 236.
  With the count 0 the loop that builds the pool runs no iteration and reads no size,
  the menu starts on a pool without partitions, and the first job is put on the waiting
  queue of that pool.
\<close>

theorem pool_creation_accepts_zero_count:
  "initPartitions 0 0 [1, 5] emptySim = (emptySim, Some [1, 5])
   \<and> main [0, 1, 5] =
       Some \<lparr>memory = [], waitingQueue = [\<lparr>jobNumber = 1, jobSize = 5\<rparr>],
             deallocatedJobs = [], cout = [AddedToWaiting 1]\<rparr>"
  by (simp add: main_def emptySim_def allocateJob_def findBest_def INT_MAX_def
      word_sless_alt word_sle_eq)

section \<open>Job numbers: each in one place, counting up\<close>

text \<open>
  C6.  In every state the program reaches, the job numbers of the occupants of the pool
  followed by those of the waiting queue form a list without repetition: no number
  occupies two partitions, none is twice in the queue, and none is in both.
\<close>

theorem job_number_in_one_place:
  assumes "main inp = Some st"
  shows "distinct (map jobNumber_p (filter (\<lambda>p. \<not> isFree p) (memory st))
                   @ map jobNumber (waitingQueue st))"
proof -
  from main_invariant [OF assms] obtain c where "invariant c st" ..
  then have "distinct (liveNumbers st)" by (simp add: invariant_def)
  then show ?thesis by (simp add: liveNumbers_def occupants_def)
qed

theorem job_number_in_one_place_witness:
  "main [2, 6, 6, 1, 6, 1, 6, 1, 6, 1, 2, 2, 1] =
     Some \<lparr>memory =
        [\<lparr>id_p = 1, size_p = 6, isFree = False, jobNumber_p = 3, jobSize_p = 6,
           internalFragment = 0\<rparr>,
         \<lparr>id_p = 2, size_p = 6, isFree = False, jobNumber_p = 2, jobSize_p = 6,
           internalFragment = 0\<rparr>],
      waitingQueue = [\<lparr>jobNumber = 4, jobSize = 2\<rparr>],
      deallocatedJobs = [\<lparr>jobNumber = 1, jobSize = 6\<rparr>],
      cout = [Allocated 1 1, Allocated 2 2, AddedToWaiting 3, AddedToWaiting 4,
              Deallocated 1 1, WaitingAllocated 3 1]\<rparr>
   \<and> distinct [3, 2, 4 :: int32]"
proof -
  have h: "main [2, 6, 6, 1, 6, 1, 6, 1, 6, 1, 2, 2, 1] =
     Some \<lparr>memory =
        [\<lparr>id_p = 1, size_p = 6, isFree = False, jobNumber_p = 3, jobSize_p = 6,
           internalFragment = 0\<rparr>,
         \<lparr>id_p = 2, size_p = 6, isFree = False, jobNumber_p = 2, jobSize_p = 6,
           internalFragment = 0\<rparr>],
      waitingQueue = [\<lparr>jobNumber = 4, jobSize = 2\<rparr>],
      deallocatedJobs = [\<lparr>jobNumber = 1, jobSize = 6\<rparr>],
      cout = [Allocated 1 1, Allocated 2 2, AddedToWaiting 3, AddedToWaiting 4,
              Deallocated 1 1, WaitingAllocated 3 1]\<rparr>"
    by code_simp
  from job_number_in_one_place [OF h] have "distinct [3, 2, 4 :: int32]"
    by simp
  with h show ?thesis by (rule conjI)
qed

lemma menuLoop_defined:
  assumes "sint c + int (length inp) < 2 ^ 31"
  shows "menuLoop c st inp \<noteq> None"
  using assms
proof (induction c st inp rule: menuLoop.induct)
  case (1 jobCounter st)
  then show ?case by simp
next
  case (2 jobCounter st choice inp)
  consider (submit) "choice = 1" | (release) "choice \<noteq> 1" "choice = 2"
    | (status) "choice \<noteq> 1" "choice \<noteq> 2" "choice = 3"
    | (exit) "choice \<noteq> 1" "choice \<noteq> 2" "choice \<noteq> 3" "choice = 4"
    | (other) "choice \<noteq> 1" "choice \<noteq> 2" "choice \<noteq> 3" "choice \<noteq> 4"
    by blast
  then show ?case
  proof cases
    case submit
    have "sint jobCounter < 2 ^ 31 - 1" using "2.prems" by simp
    then have c: "jobCounter \<noteq> INT_MAX" by (auto simp: INT_MAX_def)
    obtain r out where r: "readPositive inp (cout st) = (r, out)"
      by (cases "readPositive inp (cout st)") auto
    show ?thesis
    proof (cases r)
      case None
      with submit c r show ?thesis by simp
    next
      case (Some a)
      obtain s rest where a: "a = (s, rest)" by (cases a) auto
      from readPositive_result [OF r] Some a
      have "length rest < length inp" by auto
      then have "sint (jobCounter + 1) + int (length rest) < 2 ^ 31"
        using "2.prems" sint_succ [OF c] by simp
      from "2.IH"(1) [OF submit c r [symmetric] Some a [symmetric] this]
      show ?thesis using submit c r Some a by simp
    qed
  next
    case release
    show ?thesis
    proof (cases inp)
      case Nil
      with release show ?thesis by simp
    next
      case (Cons n rest)
      then have "sint jobCounter + int (length rest) < 2 ^ 31"
        using "2.prems" by simp
      from "2.IH"(2) [OF release Cons this] show ?thesis
        using release Cons by simp
    qed
  next
    case status
    have "sint jobCounter + int (length inp) < 2 ^ 31" using "2.prems" by simp
    from "2.IH"(3) [OF status this] show ?thesis using status by simp
  next
    case exit
    then show ?thesis by simp
  next
    case other
    have "sint jobCounter + int (length inp) < 2 ^ 31" using "2.prems" by simp
    from "2.IH"(4) [OF other this] show ?thesis using other by simp
  qed
qed

lemma main_defined:
  assumes "length inp < 2147483647"
  shows "main inp \<noteq> None"
proof (cases inp)
  case Nil
  then show ?thesis by (simp add: main_def)
next
  case (Cons n rest)
  obtain st1 r where i: "initPartitions 0 n rest emptySim = (st1, r)"
    by (cases "initPartitions 0 n rest emptySim") auto
  show ?thesis
  proof (cases r)
    case None
    with Cons i show ?thesis by (simp add: main_def)
  next
    case (Some rest')
    from initPartitions_result [OF i] Some have "length rest' \<le> length rest" by auto
    then have "sint (1::int32) + int (length rest') < 2 ^ 31"
      using assms Cons by simp
    from menuLoop_defined [OF this] Cons i Some show ?thesis
      by (simp add: main_def)
  qed
qed

text \<open>
  C9.  The job numbers the program hands out, in the order of its output, are
  \<open>1, 2, 3, \<dots>\<close>: strictly increasing from 1, none twice, whatever became of the
  earlier jobs.  The counter is an \<^verbatim>\<open>int\<close>: the run is defined as long as it does not
  pass \<^verbatim>\<open>INT_MAX\<close>, which no input of fewer than \<open>2\<^sup>3\<^sup>1 - 1\<close> numbers can make it do.
\<close>

theorem job_numbers_count_up:
  "(length inp < 2147483647 \<longrightarrow> main inp \<noteq> None)
   \<and> (main inp = Some st \<longrightarrow>
        map sint (assigned (cout st)) = [1..int (length (assigned (cout st)))])"
proof (intro conjI impI)
  assume "length inp < 2147483647"
  then show "main inp \<noteq> None" by (rule main_defined)
next
  assume "main inp = Some st"
  from main_invariant [OF this] obtain c where "invariant c st" ..
  then have c: "0 < sint c" "map sint (assigned (cout st)) = [1..sint c - 1]"
    by (simp_all add: invariant_def word_sless_alt)
  have "length (map sint (assigned (cout st))) = nat (sint c - 1)"
    by (simp add: c(2))
  then have "int (length (assigned (cout st))) = sint c - 1"
    using c(1) by simp
  with c(2) show "map sint (assigned (cout st)) = [1..int (length (assigned (cout st)))]"
    by simp
qed

theorem job_numbers_count_up_witness:
  "length [2, 5, 10, 1, 7, 1, 8, 1, 3, 2, 1, 1, 20 :: int32] < 2147483647
   \<and> main [2, 5, 10, 1, 7, 1, 8, 1, 3, 2, 1, 1, 20] =
       Some \<lparr>memory =
          [\<lparr>id_p = 1, size_p = 5, isFree = False, jobNumber_p = 3, jobSize_p = 3,
             internalFragment = 2\<rparr>,
           \<lparr>id_p = 2, size_p = 10, isFree = False, jobNumber_p = 2, jobSize_p = 8,
             internalFragment = 2\<rparr>],
        waitingQueue = [\<lparr>jobNumber = 4, jobSize = 20\<rparr>],
        deallocatedJobs = [\<lparr>jobNumber = 1, jobSize = 7\<rparr>],
        cout = [Allocated 1 2, AddedToWaiting 2, Allocated 3 1, Deallocated 1 2,
                WaitingAllocated 2 2, AddedToWaiting 4]\<rparr>
   \<and> map sint
        (assigned [Allocated 1 2, AddedToWaiting 2, Allocated 3 1, Deallocated 1 2,
                   WaitingAllocated 2 2, AddedToWaiting 4]) = [1, 2, 3, 4]"
proof -
  let ?inp = "[2, 5, 10, 1, 7, 1, 8, 1, 3, 2, 1, 1, 20] :: int32 list"
  let ?st = "\<lparr>memory =
          [\<lparr>id_p = 1, size_p = 5, isFree = False, jobNumber_p = 3, jobSize_p = 3,
             internalFragment = 2\<rparr>,
           \<lparr>id_p = 2, size_p = 10, isFree = False, jobNumber_p = 2, jobSize_p = 8,
             internalFragment = 2\<rparr>],
        waitingQueue = [\<lparr>jobNumber = 4, jobSize = 20\<rparr>],
        deallocatedJobs = [\<lparr>jobNumber = 1, jobSize = 7\<rparr>],
        cout = [Allocated 1 2, AddedToWaiting 2, Allocated 3 1, Deallocated 1 2,
                WaitingAllocated 2 2, AddedToWaiting 4]\<rparr>"
  have l: "length ?inp < 2147483647" by simp
  have h: "main ?inp = Some ?st" by code_simp
  from job_numbers_count_up [of ?inp ?st] h
  have "map sint (assigned (cout ?st)) = [1..int (length (assigned (cout ?st)))]"
    by blast
  then have "map sint (assigned (cout ?st)) = [1, 2, 3, 4]"
    by (simp add: upto.simps)
  with l h show ?thesis by simp
qed

section \<open>Fragments and the precondition of placement\<close>

lemma fragmentOk_occupy:
  assumes "0 <s jobSize j" "fits (jobSize j) p"
  shows "fragmentOk (occupy p j)"
proof -
  have "sint (size_p p - jobSize j) = sint (size_p p) - sint (jobSize j)"
    using sint_leftover [OF assms(1)] assms(2) by (simp add: fits_def)
  moreover have "sint (jobSize j) \<le> sint (size_p p)"
    using assms(2) by (simp add: fits_def word_sle_eq)
  ultimately show ?thesis
    by (simp add: fragmentOk_def word_sle_eq)
qed

lemma fragmentOk_release: "fragmentOk (release p)"
  by (simp add: fragmentOk_def)

lemma fragmentOk_update:
  assumes "\<forall>p\<in>set mem. fragmentOk p" "fragmentOk x"
  shows "\<forall>p\<in>set (mem[k := x]). fragmentOk p"
  using assms set_update_subset_insert [of mem k x] by auto

lemma partOk_fragmentOk:
  assumes "partOk p"
  shows "fragmentOk p"
proof (cases "isFree p")
  case True
  with assms show ?thesis by (simp add: partOk_def fragmentOk_def)
next
  case False
  with assms have a: "0 <s jobSize_p p" "jobSize_p p \<le>s size_p p"
    "internalFragment p = size_p p - jobSize_p p"
    by (simp_all add: partOk_def)
  from sint_leftover [OF a(1,2)] a(2,3) False show ?thesis
    by (simp add: fragmentOk_def word_sle_eq)
qed

lemma drainRetry_fragmentOk:
  assumes "\<forall>p\<in>set pool. fragmentOk p" "\<forall>j\<in>set q. 0 <s jobSize j"
  shows "\<forall>p\<in>set (fst (drainRetry pool q)). fragmentOk p"
  using assms
proof (induction q arbitrary: pool)
  case Nil
  then show ?case by simp
next
  case (Cons j js)
  show ?case
  proof (cases "findBest pool (jobSize j) = - 1")
    case True
    then show ?thesis
      using Cons.IH [of pool] Cons.prems by (simp add: fst_drainRetry_Cons del: drainRetry.simps)
  next
    case False
    with findBest_range [of pool "jobSize j"]
    obtain k0 where k0: "k0 < length pool" "findBest pool (jobSize j) = int k0"
      "fits (jobSize j) (pool ! k0)"
      by blast
    have "fragmentOk (occupy (pool ! k0) j)"
      using fragmentOk_occupy [OF _ k0(3)] Cons.prems(2) by simp
    then have "\<forall>p\<in>set (pool[k0 := occupy (pool ! k0) j]). fragmentOk p"
      using fragmentOk_update [OF Cons.prems(1)] by blast
    from Cons.IH [OF this] Cons.prems(2) show ?thesis
      using False k0(2) by (simp add: fst_drainRetry_Cons del: drainRetry.simps)
  qed
qed

lemma tryAllocateWaiting_fragmentOk:
  assumes "\<forall>p\<in>set (memory st). fragmentOk p" "\<forall>j\<in>set (waitingQueue st). 0 <s jobSize j"
  shows "\<forall>p\<in>set (memory (tryAllocateWaiting st)). fragmentOk p"
  using drainRetry_fragmentOk [OF assms]
  by (simp add: tryAllocateWaiting_drainRetry split: prod.splits)

text \<open>
  C7.  In every state the program reaches, every partition has a fragment that is not
  negative, and 0 when the partition is free.  Each operation keeps it so: a placement of
  a job of positive size (the only jobs \<^verbatim>\<open>main\<close> passes on), a retry sweep over a queue
  of such jobs, and a release followed by its sweep.
\<close>

theorem fragment_never_negative:
  "(main inp = Some st \<longrightarrow> (\<forall>p\<in>set (memory st). fragmentOk p))
   \<and> ((\<forall>p\<in>set (memory st). fragmentOk p) \<and> 0 <s jobSize job
        \<longrightarrow> (\<forall>p\<in>set (memory (allocateJob job st)). fragmentOk p))
   \<and> ((\<forall>p\<in>set (memory st). fragmentOk p) \<and> (\<forall>j\<in>set (waitingQueue st). 0 <s jobSize j)
        \<longrightarrow> (\<forall>p\<in>set (memory (tryAllocateWaiting st)). fragmentOk p)
          \<and> (\<forall>p\<in>set (memory (deallocateJob n st)). fragmentOk p))"
proof (intro conjI impI)
  assume "main inp = Some st"
  from main_invariant [OF this] obtain c where "invariant c st" ..
  then show "\<forall>p\<in>set (memory st). fragmentOk p"
    using partOk_fragmentOk by (auto simp: invariant_def)
next
  assume a: "(\<forall>p\<in>set (memory st). fragmentOk p) \<and> 0 <s jobSize job"
  show "\<forall>p\<in>set (memory (allocateJob job st)). fragmentOk p"
  proof (cases "findBest (memory st) (jobSize job) = - 1")
    case True
    then show ?thesis using a by (simp add: allocateJob_def)
  next
    case False
    with findBest_range [of "memory st" "jobSize job"]
    obtain k where k: "k < length (memory st)" "findBest (memory st) (jobSize job) = int k"
      "fits (jobSize job) (memory st ! k)"
      by blast
    have "fragmentOk (occupy (memory st ! k) job)"
      using fragmentOk_occupy [OF _ k(3)] a by simp
    then have "\<forall>p\<in>set ((memory st)[k := occupy (memory st ! k) job]). fragmentOk p"
      using fragmentOk_update a by blast
    then show ?thesis using k(2) by (simp add: allocateJob_def Let_def)
  qed
next
  assume a: "(\<forall>p\<in>set (memory st). fragmentOk p) \<and> (\<forall>j\<in>set (waitingQueue st). 0 <s jobSize j)"
  then show "\<forall>p\<in>set (memory (tryAllocateWaiting st)). fragmentOk p"
    using tryAllocateWaiting_fragmentOk by blast
next
  assume a: "(\<forall>p\<in>set (memory st). fragmentOk p) \<and> (\<forall>j\<in>set (waitingQueue st). 0 <s jobSize j)"
  show "\<forall>p\<in>set (memory (deallocateJob n st)). fragmentOk p"
  proof (cases "\<forall>p\<in>set (memory st). \<not> holds n p")
    case True
    then show ?thesis
      using a by (simp add: deallocateJob_def deallocLoop_not_found)
  next
    case False
    then have "\<exists>p\<in>set (memory st). holds n p" by blast
    from deallocLoop_found [OF this, of 0 st]
    obtain k where k: "deallocateJob n st =
       tryAllocateWaiting
         (st\<lparr>cout := cout st @ [Deallocated n (id_p (memory st ! k))],
             deallocatedJobs :=
               deallocatedJobs st @ [\<lparr>jobNumber = n, jobSize = jobSize_p (memory st ! k)\<rparr>],
             memory := (memory st)[k := release (memory st ! k)]\<rparr>)"
      (is "_ = tryAllocateWaiting ?st1")
      by (auto simp: deallocateJob_def)
    have "\<forall>p\<in>set (memory ?st1). fragmentOk p"
      using fragmentOk_update [of "memory st" "release (memory st ! k)" k] a fragmentOk_release
      by simp
    moreover have "\<forall>j\<in>set (waitingQueue ?st1). 0 <s jobSize j" using a by simp
    ultimately show ?thesis
      using tryAllocateWaiting_fragmentOk [of ?st1] k by simp
  qed
qed

theorem fragment_never_negative_witness:
  "main [2, 5, 10, 1, 7, 1, 8, 2, 1] =
     Some \<lparr>memory =
        [\<lparr>id_p = 1, size_p = 5, isFree = True, jobNumber_p = - 1, jobSize_p = 0,
           internalFragment = 0\<rparr>,
         \<lparr>id_p = 2, size_p = 10, isFree = False, jobNumber_p = 2, jobSize_p = 8,
           internalFragment = 2\<rparr>],
      waitingQueue = [],
      deallocatedJobs = [\<lparr>jobNumber = 1, jobSize = 7\<rparr>],
      cout = [Allocated 1 2, AddedToWaiting 2, Deallocated 1 2, WaitingAllocated 2 2]\<rparr>
   \<and> 0 \<le>s internalFragment
            \<lparr>id_p = 1, size_p = 5, isFree = True, jobNumber_p = - 1, jobSize_p = 0,
              internalFragment = 0\<rparr>
   \<and> 0 \<le>s internalFragment
            \<lparr>id_p = 2, size_p = 10, isFree = False, jobNumber_p = 2, jobSize_p = 8,
              internalFragment = 2\<rparr>"
proof -
  let ?st = "\<lparr>memory =
        [\<lparr>id_p = 1, size_p = 5, isFree = True, jobNumber_p = - 1, jobSize_p = 0,
           internalFragment = 0\<rparr>,
         \<lparr>id_p = 2, size_p = 10, isFree = False, jobNumber_p = 2, jobSize_p = 8,
           internalFragment = 2\<rparr>],
      waitingQueue = [],
      deallocatedJobs = [\<lparr>jobNumber = 1, jobSize = 7\<rparr>],
      cout = [Allocated 1 2, AddedToWaiting 2, Deallocated 1 2, WaitingAllocated 2 2]\<rparr>"
  have h: "main [2, 5, 10, 1, 7, 1, 8, 2, 1] = Some ?st"
    by code_simp
  from fragment_never_negative [of "[2, 5, 10, 1, 7, 1, 8, 2, 1]" ?st] h
  have "\<forall>p\<in>set (memory ?st). fragmentOk p" by blast
  with h show ?thesis by (simp add: fragmentOk_def)
qed

lemma place_findBest:
  assumes "findBest pool (jobSize job) \<noteq> - 1"
  shows "place pool (nat (findBest pool (jobSize job))) job =
           Some (pool[nat (findBest pool (jobSize job)) :=
                        occupy (pool ! nat (findBest pool (jobSize job))) job])"
  using findBest_range [of pool "jobSize job"] assms
  by (auto simp: place_def fits_def)

lemma place_fragment:
  assumes "place pool k job = Some pool'" "0 <s jobSize job"
  shows "0 \<le>s internalFragment (pool' ! k)
       \<and> sint (internalFragment (pool' ! k)) = sint (size_p (pool ! k)) - sint (jobSize job)"
proof -
  from assms(1) have k: "k < length pool" "isFree (pool ! k)" "jobSize job \<le>s size_p (pool ! k)"
    "pool' = pool[k := occupy (pool ! k) job]"
    by (auto simp: place_def split: if_splits)
  have "sint (size_p (pool ! k) - jobSize job) = sint (size_p (pool ! k)) - sint (jobSize job)"
    by (rule sint_leftover [OF assms(2) k(3)])
  moreover have "sint (jobSize job) \<le> sint (size_p (pool ! k))"
    using k(3) by (simp add: word_sle_eq)
  ultimately show ?thesis
    using k(1,4) by (simp add: word_sle_eq)
qed

text \<open>
  C10.  Every time the program fills a partition, the call of \<open>place\<close> it stands for is
  within the precondition.  In \<^verbatim>\<open>allocateJob\<close>, when the scan ends at an index, \<open>place\<close>
  at that index succeeds and gives the new pool.  In a retry sweep, at every job that
  does not fail, \<open>place\<close> on the pool of that moment succeeds and gives the pool of the
  next moment, and the pool after the last job is the pool the sweep leaves.  A
  successful \<open>place\<close> of a job of positive size leaves the fragment capacity minus size,
  which is not negative.  All jobs of the program have a positive size: the one
  \<^verbatim>\<open>main\<close> reads, and those it has put on the waiting queue.
\<close>

theorem place_precondition_holds:
  "(findBest (memory st) (jobSize job) \<noteq> - 1 \<longrightarrow>
      place (memory st) (nat (findBest (memory st) (jobSize job))) job =
        Some (memory (allocateJob job st)))
   \<and> (\<forall>i<length (waitingQueue st).
        \<not> failsAtVisit (memory st) (waitingQueue st) i \<longrightarrow>
          place (poolAtVisit (memory st) (waitingQueue st) i)
            (nat (findBest (poolAtVisit (memory st) (waitingQueue st) i)
                   (jobSize (waitingQueue st ! i))))
            (waitingQueue st ! i) =
          Some (poolAtVisit (memory st) (waitingQueue st) (Suc i)))
   \<and> memory (tryAllocateWaiting st) =
       poolAtVisit (memory st) (waitingQueue st) (length (waitingQueue st))
   \<and> (place pool k job = Some pool' \<and> 0 <s jobSize job \<longrightarrow>
        0 \<le>s internalFragment (pool' ! k)
      \<and> sint (internalFragment (pool' ! k)) = sint (size_p (pool ! k)) - sint (jobSize job))
   \<and> (readPositive tokens out = (Some (s, rest), out') \<longrightarrow> 0 <s s)
   \<and> (main inp = Some st \<longrightarrow> (\<forall>j\<in>set (waitingQueue st). 0 <s jobSize j))"
proof -
  have a: "findBest (memory st) (jobSize job) \<noteq> - 1 \<longrightarrow>
      place (memory st) (nat (findBest (memory st) (jobSize job))) job =
        Some (memory (allocateJob job st))"
    using place_findBest [of "memory st" job] by (simp add: allocateJob_def Let_def)
  have b: "\<forall>i<length (waitingQueue st).
        \<not> failsAtVisit (memory st) (waitingQueue st) i \<longrightarrow>
          place (poolAtVisit (memory st) (waitingQueue st) i)
            (nat (findBest (poolAtVisit (memory st) (waitingQueue st) i)
                   (jobSize (waitingQueue st ! i))))
            (waitingQueue st ! i) =
          Some (poolAtVisit (memory st) (waitingQueue st) (Suc i))"
  proof (intro allI impI)
    fix i
    assume "i < length (waitingQueue st)" "\<not> failsAtVisit (memory st) (waitingQueue st) i"
    then show "place (poolAtVisit (memory st) (waitingQueue st) i)
            (nat (findBest (poolAtVisit (memory st) (waitingQueue st) i)
                   (jobSize (waitingQueue st ! i))))
            (waitingQueue st ! i) =
          Some (poolAtVisit (memory st) (waitingQueue st) (Suc i))"
      using place_findBest
        [of "poolAtVisit (memory st) (waitingQueue st) i" "waitingQueue st ! i"]
      by (simp add: poolAtVisit_step failsAtVisit_def)
  qed
  have c: "memory (tryAllocateWaiting st) =
       poolAtVisit (memory st) (waitingQueue st) (length (waitingQueue st))"
    by (simp add: tryAllocateWaiting_drainRetry poolAtVisit_def split: prod.splits)
  have d: "place pool k job = Some pool' \<and> 0 <s jobSize job \<longrightarrow>
        0 \<le>s internalFragment (pool' ! k)
      \<and> sint (internalFragment (pool' ! k)) = sint (size_p (pool ! k)) - sint (jobSize job)"
    using place_fragment [of pool k job pool'] by blast
  have e: "readPositive tokens out = (Some (s, rest), out') \<longrightarrow> 0 <s s"
    using readPositive_result [of tokens out "Some (s, rest)" out'] by auto
  have f: "main inp = Some st \<longrightarrow> (\<forall>j\<in>set (waitingQueue st). 0 <s jobSize j)"
    using main_invariant [of inp st] by (auto simp: invariant_def)
  from a b c d e f show ?thesis by (intro conjI)
qed

theorem place_precondition_holds_witness:
  "findBest
     [\<lparr>id_p = 1, size_p = 5, isFree = True, jobNumber_p = - 1, jobSize_p = 0,
        internalFragment = 0\<rparr>,
      \<lparr>id_p = 2, size_p = 10, isFree = True, jobNumber_p = - 1, jobSize_p = 0,
        internalFragment = 0\<rparr>] 8 \<noteq> - 1
   \<and> place
       [\<lparr>id_p = 1, size_p = 5, isFree = True, jobNumber_p = - 1, jobSize_p = 0,
          internalFragment = 0\<rparr>,
        \<lparr>id_p = 2, size_p = 10, isFree = True, jobNumber_p = - 1, jobSize_p = 0,
          internalFragment = 0\<rparr>] 1 \<lparr>jobNumber = 7, jobSize = 8\<rparr> =
     Some
       [\<lparr>id_p = 1, size_p = 5, isFree = True, jobNumber_p = - 1, jobSize_p = 0,
          internalFragment = 0\<rparr>,
        \<lparr>id_p = 2, size_p = 10, isFree = False, jobNumber_p = 7, jobSize_p = 8,
          internalFragment = 2\<rparr>]
   \<and> memory
       (allocateJob \<lparr>jobNumber = 7, jobSize = 8\<rparr>
          \<lparr>memory =
             [\<lparr>id_p = 1, size_p = 5, isFree = True, jobNumber_p = - 1, jobSize_p = 0,
                internalFragment = 0\<rparr>,
              \<lparr>id_p = 2, size_p = 10, isFree = True, jobNumber_p = - 1, jobSize_p = 0,
                internalFragment = 0\<rparr>],
           waitingQueue = [], deallocatedJobs = [], cout = []\<rparr>) =
       [\<lparr>id_p = 1, size_p = 5, isFree = True, jobNumber_p = - 1, jobSize_p = 0,
          internalFragment = 0\<rparr>,
        \<lparr>id_p = 2, size_p = 10, isFree = False, jobNumber_p = 7, jobSize_p = 8,
          internalFragment = 2\<rparr>]"
proof -
  let ?mem = "[\<lparr>id_p = 1, size_p = 5, isFree = True, jobNumber_p = - 1, jobSize_p = 0,
        internalFragment = 0\<rparr>,
      \<lparr>id_p = 2, size_p = 10, isFree = True, jobNumber_p = - 1, jobSize_p = 0,
        internalFragment = 0\<rparr>] :: Partition list"
  let ?st = "\<lparr>memory = ?mem, waitingQueue = [], deallocatedJobs = [], cout = []\<rparr>"
  let ?job = "\<lparr>jobNumber = 7, jobSize = 8\<rparr> :: Job"
  have f: "findBest ?mem 8 = 1"
    by (simp add: findBest_def INT_MAX_def word_sless_alt word_sle_eq)
  have p: "place ?mem 1 ?job =
     Some
       [\<lparr>id_p = 1, size_p = 5, isFree = True, jobNumber_p = - 1, jobSize_p = 0,
          internalFragment = 0\<rparr>,
        \<lparr>id_p = 2, size_p = 10, isFree = False, jobNumber_p = 7, jobSize_p = 8,
          internalFragment = 2\<rparr>]"
    by (simp add: place_def occupy_def word_sle_eq)
  from place_precondition_holds [of ?st ?job] f
  have "place ?mem 1 ?job = Some (memory (allocateJob ?job ?st))"
    by simp
  with f p show ?thesis by simp
qed

end
